theory Spec2Isabelle
  imports Complex_Main "HOL-Library.Product_Lexorder"
begin

section \<open>The geometry kernel of \<^verbatim>\<open>src/types.d.ts\<close>\<close>

subsection \<open>JavaScript numbers\<close>

text \<open>
  The kernel computes on JavaScript numbers, the binary64 numbers of IEEE 754: NaN, the
  two infinities and the finite doubles. A finite double is given by its real value. The
  two zeros are one number here: they are equal under \<^verbatim>\<open>===\<close> and under every comparison,
  the functions below could tell them apart only by dividing by one, and every divisor
  there is guarded by a comparison that excludes zero.
\<close>

datatype double = NaN | PInf | NInf | Fin real

text \<open>
  The result of an arithmetic operation is the exact result rounded to the nearest
  double, a tie going to the double with the even significand. A real \<open>x\<close> in the binade
  \<open>pow2 e \<le> \<bar>x\<bar> < pow2 (e + 1)\<close> is rounded to a multiple of \<open>pow2 (e - 52)\<close>; below
  \<open>pow2 (- 1022)\<close> the doubles are the multiples of \<open>pow2 (- 1074)\<close>. A rounded value of
  magnitude \<open>2 ^ 1024\<close> or more is an infinity.
\<close>

definition pow2 :: "int \<Rightarrow> real" where
  "pow2 e = (if 0 \<le> e then 2 ^ nat e else 1 / 2 ^ nat (- e))"

definition round_even :: "real \<Rightarrow> int" where
  "round_even q =
     (let f = \<lfloor>q\<rfloor>
      in if q - of_int f < 1 / 2 then f
         else if 1 / 2 < q - of_int f then f + 1
         else if even f then f else f + 1)"

definition expo :: "real \<Rightarrow> int" where
  "expo x = max \<lfloor>log 2 \<bar>x\<bar>\<rfloor> (- 1022)"

definition rnd :: "real \<Rightarrow> real" where
  "rnd x =
     (if x = 0 then 0
      else of_int (round_even (x / pow2 (expo x - 52))) * pow2 (expo x - 52))"

definition overflow :: real where
  "overflow = 2 ^ 1024"

definition round_dbl :: "real \<Rightarrow> double" where
  "round_dbl x =
     (let y = rnd x
      in if overflow \<le> y then PInf else if y \<le> - overflow then NInf else Fin y)"

text \<open>
  A decimal literal of the source is the double nearest to it; an array length or a loop
  counter is an integer below \<open>2 ^ 32\<close>, which is a double.
\<close>

definition dbl :: "real \<Rightarrow> double" where
  "dbl c = round_dbl c"

definition number :: "nat \<Rightarrow> double" where
  "number n = Fin (real n)"

text \<open>The real numbers that are finite doubles, and the real value of a finite double.\<close>

definition is_double :: "real \<Rightarrow> bool" where
  "is_double x \<longleftrightarrow> round_dbl x = Fin x"

definition val :: "double \<Rightarrow> real" where
  "val a = (case a of Fin x \<Rightarrow> x | _ \<Rightarrow> 0)"

definition negative :: "double \<Rightarrow> bool" where
  "negative a \<longleftrightarrow> (case a of Fin x \<Rightarrow> x < 0 | NInf \<Rightarrow> True | _ \<Rightarrow> False)"

definition signed_inf :: "bool \<Rightarrow> double" where
  "signed_inf neg = (if neg then NInf else PInf)"

text \<open>
  The operators \<^verbatim>\<open>+\<close>, \<^verbatim>\<open>-\<close>, \<^verbatim>\<open>*\<close>, \<^verbatim>\<open>/\<close>, \<^verbatim>\<open><\<close>, \<^verbatim>\<open><=\<close> and \<^verbatim>\<open>Math.abs\<close> on doubles. Every
  comparison with NaN is false, so \<open>a \<ge> b\<close> (that is \<open>b \<le> a\<close>) is not the negation of
  \<open>a < b\<close>.
\<close>

instantiation double :: "{zero, one, plus, minus, uminus, times, inverse, abs, ord}"
begin

definition zero_double :: double where
  "zero_double = Fin 0"

definition one_double :: double where
  "one_double = Fin 1"

definition uminus_double :: "double \<Rightarrow> double" where
  "uminus_double a =
     (case a of NaN \<Rightarrow> NaN | PInf \<Rightarrow> NInf | NInf \<Rightarrow> PInf | Fin x \<Rightarrow> Fin (- x))"

definition plus_double :: "double \<Rightarrow> double \<Rightarrow> double" where
  "plus_double a b =
     (case (a, b) of
        (Fin x, Fin y) \<Rightarrow> round_dbl (x + y)
      | (NaN, _) \<Rightarrow> NaN
      | (_, NaN) \<Rightarrow> NaN
      | (PInf, NInf) \<Rightarrow> NaN
      | (NInf, PInf) \<Rightarrow> NaN
      | (PInf, _) \<Rightarrow> PInf
      | (_, PInf) \<Rightarrow> PInf
      | (NInf, _) \<Rightarrow> NInf
      | (_, NInf) \<Rightarrow> NInf)"

definition minus_double :: "double \<Rightarrow> double \<Rightarrow> double" where
  "minus_double a b = a + (- b)"

definition times_double :: "double \<Rightarrow> double \<Rightarrow> double" where
  "times_double a b =
     (case (a, b) of
        (Fin x, Fin y) \<Rightarrow> round_dbl (x * y)
      | (NaN, _) \<Rightarrow> NaN
      | (_, NaN) \<Rightarrow> NaN
      | (Fin x, _) \<Rightarrow> (if x = 0 then NaN else signed_inf (negative a \<noteq> negative b))
      | (_, Fin y) \<Rightarrow> (if y = 0 then NaN else signed_inf (negative a \<noteq> negative b))
      | (_, _) \<Rightarrow> signed_inf (negative a \<noteq> negative b))"

definition divide_double :: "double \<Rightarrow> double \<Rightarrow> double" where
  "divide_double a b =
     (case (a, b) of
        (Fin x, Fin y) \<Rightarrow>
          (if y = 0 then (if x = 0 then NaN else signed_inf (x < 0)) else round_dbl (x / y))
      | (NaN, _) \<Rightarrow> NaN
      | (_, NaN) \<Rightarrow> NaN
      | (Fin x, _) \<Rightarrow> Fin 0
      | (_, Fin y) \<Rightarrow> signed_inf (negative a \<noteq> negative b)
      | (_, _) \<Rightarrow> NaN)"

definition inverse_double :: "double \<Rightarrow> double" where
  "inverse_double a = divide (Fin 1) a"

definition abs_double :: "double \<Rightarrow> double" where
  "abs_double a =
     (case a of NaN \<Rightarrow> NaN | PInf \<Rightarrow> PInf | NInf \<Rightarrow> PInf | Fin x \<Rightarrow> Fin \<bar>x\<bar>)"

definition less_double :: "double \<Rightarrow> double \<Rightarrow> bool" where
  "less_double a b \<longleftrightarrow>
     (case (a, b) of
        (Fin x, Fin y) \<Rightarrow> x < y
      | (NaN, _) \<Rightarrow> False
      | (_, NaN) \<Rightarrow> False
      | (NInf, NInf) \<Rightarrow> False
      | (NInf, _) \<Rightarrow> True
      | (PInf, _) \<Rightarrow> False
      | (_, PInf) \<Rightarrow> True
      | (_, NInf) \<Rightarrow> False)"

definition less_eq_double :: "double \<Rightarrow> double \<Rightarrow> bool" where
  "less_eq_double a b \<longleftrightarrow> a \<noteq> NaN \<and> b \<noteq> NaN \<and> (a = b \<or> a < b)"

instance ..

end

text \<open>
  \<^verbatim>\<open>===\<close> on numbers, \<^verbatim>\<open>Math.sqrt\<close> (the correctly rounded square root of IEEE 754) and
  \<^verbatim>\<open>Math.PI\<close>, the double nearest to \<open>\<pi>\<close>. \<^verbatim>\<open>Math.cos\<close> and \<^verbatim>\<open>Math.sin\<close> are left to
  the implementation by the language; they are parameters of the one function that
  calls them.
\<close>

definition strict_eq :: "double \<Rightarrow> double \<Rightarrow> bool" where
  "strict_eq a b \<longleftrightarrow> a \<noteq> NaN \<and> b \<noteq> NaN \<and> a = b"


definition Math_PI :: double where
  "Math_PI = Fin (884279719003555 / 2 ^ 48)"

text \<open>The literal \<^verbatim>\<open>1e-10\<close>.\<close>

definition eps10 :: double where
  "eps10 = dbl (1 / 10 ^ 10)"

subsection \<open>Point\<close>

text \<open>
  \<^verbatim>\<open>class Point { public x: number; public y: number }\<close>. The fields are named
  \<open>px\<close> and \<open>py\<close> here, so that \<open>x\<close> and \<open>y\<close> stay free for variables. The type of the
  coordinates is a parameter: it is \<^typ>\<open>double\<close> wherever a result depends on the
  arithmetic. \<^verbatim>\<open>Rectangle\<close> and the store of point objects below, where the claims are
  about comparisons and about which object a reference names, are kept on \<^typ>\<open>real\<close>
  coordinates; there the sums \<open>x + width\<close> and \<open>y + height\<close> are exact, where the code
  rounds them to the nearest double.
\<close>

datatype 'n point = Point (px: 'n) (py: 'n)

datatype error = DivisionByZero | TypeError | InvalidConstruction

text \<open>The point whose coordinates are the finite doubles of real values \<open>x\<close> and \<open>y\<close>.\<close>

definition pt :: "real \<Rightarrow> real \<Rightarrow> double point" where
  "pt x y = Point (Fin x) (Fin y)"

text \<open>
  \<^verbatim>\<open>Point.zero\<close>, \<^verbatim>\<open>Point.add\<close> (as a function of the values), \<^verbatim>\<open>Point.distance\<close>,
  \<^verbatim>\<open>Point.equals\<close> (with its tolerance).
\<close>

definition Point_zero :: "'n::zero point" where
  "Point_zero = Point 0 0"

definition Point_add :: "'n::plus point \<Rightarrow> 'n point \<Rightarrow> 'n point" where
  "Point_add this p = Point (px this + px p) (py this + py p)"


definition Point_equals :: "double point \<Rightarrow> double point \<Rightarrow> double \<Rightarrow> bool" where
  "Point_equals this p tolerance \<longleftrightarrow>
     \<bar>px this - px p\<bar> < tolerance \<and> \<bar>py this - py p\<bar> < tolerance"

text \<open>
  A double that is an integer of magnitude at most \<open>b\<close>, and a point with two such
  coordinates. A sum, a difference or a product of integers is computed without rounding
  as long as its magnitude is at most \<open>2 ^ 53\<close>.
\<close>

definition int_within :: "int \<Rightarrow> double \<Rightarrow> bool" where
  "int_within b a \<longleftrightarrow> (\<exists>n::int. a = Fin (of_int n) \<and> \<bar>n\<bar> \<le> b)"

definition int_point :: "int \<Rightarrow> double point \<Rightarrow> bool" where
  "int_point b p \<longleftrightarrow> int_within b (px p) \<and> int_within b (py p)"

subsection \<open>Line\<close>

datatype 'n line = Line (lstart: "'n point") (lend: "'n point")

text \<open>
  \<^verbatim>\<open>Line.intersects(line)\<close>: \<open>None\<close> is the source's \<^verbatim>\<open>null\<close>.
\<close>

definition Line_intersects :: "double line \<Rightarrow> double line \<Rightarrow> double point option" where
  "Line_intersects this other =
     (let p0 = lstart this; p1 = lend this; p2 = lstart other; p3 = lend other;
          s1_x = px p1 - px p0; s1_y = py p1 - py p0;
          s2_x = px p3 - px p2; s2_y = py p3 - py p2;
          denominator = - s2_x * s1_y + s1_x * s2_y
      in if \<bar>denominator\<bar> < eps10 then None
         else
           let s = (- s1_y * (px p0 - px p2) + s1_x * (py p0 - py p2)) / denominator;
               t = (s2_x * (py p0 - py p2) - s2_y * (px p0 - px p2)) / denominator
           in if s \<ge> 0 \<and> s \<le> 1 \<and> t \<ge> 0 \<and> t \<le> 1
              then Some (Point (px p0 + t * s1_x) (py p0 + t * s1_y))
              else None)"

text \<open>
  The words of the specification, on the numbers that the code computes: the determinant
  of the linear system \<open>start A + t (end A - start A) = start B + s (end B - start B)\<close>
  in the unknowns \<open>t\<close> and \<open>s\<close>, its solution by Cramer's rule (\<open>solved_t\<close> is the
  parameter on \<open>A\<close>, \<open>solved_s\<close> the parameter on \<open>B\<close>), and the point of a segment at a
  parameter. Each is a double, computed by the operations of the source in their order.
\<close>

definition dir_x :: "double line \<Rightarrow> double" where
  "dir_x A = px (lend A) - px (lstart A)"

definition dir_y :: "double line \<Rightarrow> double" where
  "dir_y A = py (lend A) - py (lstart A)"

definition line_det :: "double line \<Rightarrow> double line \<Rightarrow> double" where
  "line_det A B = - dir_x B * dir_y A + dir_x A * dir_y B"

definition solved_s :: "double line \<Rightarrow> double line \<Rightarrow> double" where
  "solved_s A B =
     (- dir_y A * (px (lstart A) - px (lstart B)) + dir_x A * (py (lstart A) - py (lstart B)))
     / line_det A B"

definition solved_t :: "double line \<Rightarrow> double line \<Rightarrow> double" where
  "solved_t A B =
     (dir_x B * (py (lstart A) - py (lstart B)) - dir_y B * (px (lstart A) - px (lstart B)))
     / line_det A B"

definition point_on :: "double line \<Rightarrow> double \<Rightarrow> double point" where
  "point_on A t = Point (px (lstart A) + t * dir_x A) (py (lstart A) + t * dir_y A)"

text \<open>
  The same words on the real values of the coordinates, in exact arithmetic: the
  determinant, and \<open>B\<close> lying on the line through \<open>A\<close> with its start between the end
  points of \<open>A\<close>.
\<close>

definition exact_det :: "double line \<Rightarrow> double line \<Rightarrow> real" where
  "exact_det A B =
     (val (px (lend A)) - val (px (lstart A))) * (val (py (lend B)) - val (py (lstart B)))
     - (val (py (lend A)) - val (py (lstart A))) * (val (px (lend B)) - val (px (lstart B)))"

definition exact_point_on :: "double line \<Rightarrow> real \<Rightarrow> real \<times> real" where
  "exact_point_on A t =
     (val (px (lstart A)) + t * (val (px (lend A)) - val (px (lstart A))),
      val (py (lstart A)) + t * (val (py (lend A)) - val (py (lstart A))))"

definition int_line :: "int \<Rightarrow> double line \<Rightarrow> bool" where
  "int_line b A \<longleftrightarrow> int_point b (lstart A) \<and> int_point b (lend A)"

subsection \<open>Point.divide\<close>

text \<open>
  The instance method mutates its receiver and returns it; the model returns the state of
  the receiver after the call, and the error thrown, if any. The static method builds a
  new point or throws. The test \<^verbatim>\<open>scalar === 0\<close> holds of the zeros and of no other number.
\<close>

definition Point_divide :: "'n::{zero, inverse} point \<Rightarrow> 'n \<Rightarrow> 'n point \<times> error option" where
  "Point_divide this scalar =
     (if scalar = 0 then (this, Some DivisionByZero)
      else
        let this1 = Point (px this / scalar) (py this);
            this2 = Point (px this1) (py this1 / scalar)
        in (this2, None))"

definition Point_divide_static :: "'n::{zero, inverse} point \<Rightarrow> 'n \<Rightarrow> error + 'n point" where
  "Point_divide_static point scalar =
     (if scalar = 0 then Inl DivisionByZero
      else Inr (Point (px point / scalar) (py point / scalar)))"

subsection \<open>Rectangle\<close>

datatype rectangle = Rectangle (rx: real) (ry: real) (width: real) (height: real)

definition right :: "rectangle \<Rightarrow> real" where
  "right r = rx r + width r"

definition bottom :: "rectangle \<Rightarrow> real" where
  "bottom r = ry r + height r"







subsection \<open>Circle\<close>








subsection \<open>Polygon: queries on the vertex values\<close>

text \<open>
  The queries of \<^verbatim>\<open>class Polygon\<close> read the coordinates of \<^verbatim>\<open>this.vertices\<close> and nothing
  else, so they are modelled on the list of the vertex values. A \<^verbatim>\<open>for\<close> loop over the
  indices \<open>0, \<dots>, n - 1\<close> with no early exit is a \<open>fold\<close> over \<open>[0..<n]\<close>.
\<close>

definition Polygon_isClosed :: "double point list \<Rightarrow> bool" where
  "Polygon_isClosed vertices \<longleftrightarrow>
     length vertices > 2 \<and>
     Point_equals (vertices ! 0) (vertices ! (length vertices - 1)) eps10"

definition Polygon_close :: "double point list \<Rightarrow> double point list" where
  "Polygon_close vertices =
     (if length vertices > 2 \<and> \<not> Polygon_isClosed vertices
      then vertices @ [vertices ! 0] else vertices)"

definition Polygon_area :: "double point list \<Rightarrow> double" where
  "Polygon_area vertices =
     (if length vertices < 3 then 0
      else
        let n = length vertices;
            area = fold (\<lambda>i area.
                     let j = (i + 1) mod n;
                         area1 = area + px (vertices ! i) * py (vertices ! j);
                         area2 = area1 - px (vertices ! j) * py (vertices ! i)
                     in area2) [0..<n] 0
        in \<bar>area\<bar> / dbl 2)"

text \<open>
  \<^verbatim>\<open>Polygon.regular(center, radius, sides)\<close>, with \<open>c\<close> for the center and \<open>r\<close> for the
  radius. The counter of the loop \<^verbatim>\<open>for (let i = 0; i < sides; i++)\<close> is a double, and
  \<open>i + 1\<close> is \<open>i\<close> from \<open>2 ^ 53\<close> on: the loop need not end, and \<open>None\<close> stands for a call
  that does not return.
\<close>

partial_function (option) regular_loop ::
  "(double \<Rightarrow> double) \<Rightarrow> (double \<Rightarrow> double) \<Rightarrow> double point \<Rightarrow> double \<Rightarrow> double \<Rightarrow> double
     \<Rightarrow> double \<Rightarrow> double point list \<Rightarrow> double point list option" where
  "regular_loop Math_cos Math_sin c r sides angleStep i vertices =
     (if i < sides then
        regular_loop Math_cos Math_sin c r sides angleStep (i + 1)
          (vertices @ [Point (px c + r * Math_cos (i * angleStep))
                             (py c + r * Math_sin (i * angleStep))])
      else Some vertices)"

definition Polygon_regular ::
  "(double \<Rightarrow> double) \<Rightarrow> (double \<Rightarrow> double) \<Rightarrow> double point \<Rightarrow> double \<Rightarrow> double
     \<Rightarrow> (error + double point list) option" where
  "Polygon_regular Math_cos Math_sin c r sides =
     (if sides < dbl 3 then Some (Inl InvalidConstruction)
      else
        let angleStep = (dbl 2 * Math_PI) / sides
        in map_option (\<lambda>vertices. Inr (Polygon_close vertices))
             (regular_loop Math_cos Math_sin c r sides angleStep 0 []))"

text \<open>
  The values of \<^verbatim>\<open>Math.cos\<close> and \<^verbatim>\<open>Math.sin\<close> at the four angles of a square, the
  multiples of \<^verbatim>\<open>Math.PI / 2\<close>, as the common implementations return them: \<open>1\<close>, \<open>0\<close> and
  \<open>- 1\<close> where the cosine or sine of the angle rounds to that, and elsewhere the doubles
  printed \<^verbatim>\<open>6.123233995736766e-17\<close>, \<^verbatim>\<open>1.2246467991473532e-16\<close> and
  \<^verbatim>\<open>-1.8369701987210297e-16\<close>. A table says nothing of other angles (\<open>None\<close>).
\<close>

definition square_angles :: "double list" where
  "square_angles =
     [Fin 0, Fin (884279719003555 / 2 ^ 49), Fin (884279719003555 / 2 ^ 48),
      Fin (2652839157010665 / 2 ^ 49)]"

definition cos_table :: "(double \<times> double) list" where
  "cos_table =
     zip square_angles
       [Fin 1, Fin (4967757600021511 / 2 ^ 106), Fin (- 1), Fin (- 3725818200016133 / 2 ^ 104)]"

definition sin_table :: "(double \<times> double) list" where
  "sin_table =
     zip square_angles
       [Fin 0, Fin 1, Fin (4967757600021511 / 2 ^ 105), Fin (- 1)]"

definition agrees :: "(double \<Rightarrow> double) \<Rightarrow> (double \<times> double) list \<Rightarrow> bool" where
  "agrees f table \<longleftrightarrow> list_all (\<lambda>(a, v). f a = v) table"

definition lookup :: "(double \<times> double) list \<Rightarrow> double \<Rightarrow> double" where
  "lookup table a = (case map_of table a of Some v \<Rightarrow> v | None \<Rightarrow> NaN)"

text \<open>
  \<^verbatim>\<open>Polygon.centroid()\<close>. \<^verbatim>\<open>Point.divide\<close> can throw, so the result is a sum.
\<close>

definition Polygon_centroid :: "double point list \<Rightarrow> error + double point" where
  "Polygon_centroid vertices =
     (if length vertices = 0 then Inr Point_zero
      else if length vertices < 3 then
        let (sumX, sumY) = fold (\<lambda>v (sumX, sumY). (sumX + px v, sumY + py v)) vertices (0, 0)
        in Inr (Point (sumX / number (length vertices)) (sumY / number (length vertices)))
      else
        let n = length vertices;
            (cx, cy, signedArea) =
               fold (\<lambda>i (cx, cy, signedArea).
                       let p1 = vertices ! i;
                           p2 = vertices ! ((i + 1) mod n);
                           crossProductTerm = px p1 * py p2 - px p2 * py p1
                       in (cx + (px p1 + px p2) * crossProductTerm,
                           cy + (py p1 + py p2) * crossProductTerm,
                           signedArea + crossProductTerm)) [0..<n] (0, 0, 0)
        in if \<bar>signedArea\<bar> < eps10 then
             let sum = fold (\<lambda>v acc. Point_add acc v) vertices Point_zero
             in Point_divide_static sum (number (length vertices))
           else
             let signedArea2 = signedArea / dbl 2;
                 cx2 = cx / (dbl 6 * signedArea2);
                 cy2 = cy / (dbl 6 * signedArea2)
             in Inr (Point cx2 cy2))"

text \<open>
  The words of the specification, on the numbers that the code computes. Every sum is
  accumulated from \<open>0\<close> in the order of the vertices, each addition rounded. The shoelace
  sum of \<^verbatim>\<open>area\<close> adds \<open>x\<^sub>i y\<^sub>j\<close> and then subtracts \<open>x\<^sub>j y\<^sub>i\<close>, where \<open>j\<close> is the next index
  in the cycle; the signed sum of \<^verbatim>\<open>centroid\<close> adds the difference of the two products.
\<close>

definition next_vertex :: "'a list \<Rightarrow> nat \<Rightarrow> 'a" where
  "next_vertex vs i = vs ! ((i + 1) mod length vs)"

fun shoelace_upto :: "double point list \<Rightarrow> nat \<Rightarrow> double" where
  "shoelace_upto vs 0 = 0"
| "shoelace_upto vs (Suc i) =
     shoelace_upto vs i + px (vs ! i) * py (next_vertex vs i) - px (next_vertex vs i) * py (vs ! i)"

definition shoelace :: "double point list \<Rightarrow> double" where
  "shoelace vs = shoelace_upto vs (length vs)"

definition cross_term :: "double point list \<Rightarrow> nat \<Rightarrow> double" where
  "cross_term vs i = px (vs ! i) * py (next_vertex vs i) - px (next_vertex vs i) * py (vs ! i)"

fun rounded_sum :: "(nat \<Rightarrow> double) \<Rightarrow> nat \<Rightarrow> double" where
  "rounded_sum f 0 = 0"
| "rounded_sum f (Suc i) = rounded_sum f i + f i"

definition signed_sum :: "double point list \<Rightarrow> double" where
  "signed_sum vs = rounded_sum (cross_term vs) (length vs)"

definition weighted_x :: "double point list \<Rightarrow> double" where
  "weighted_x vs =
     rounded_sum (\<lambda>i. (px (vs ! i) + px (next_vertex vs i)) * cross_term vs i) (length vs)"

definition weighted_y :: "double point list \<Rightarrow> double" where
  "weighted_y vs =
     rounded_sum (\<lambda>i. (py (vs ! i) + py (next_vertex vs i)) * cross_term vs i) (length vs)"

text \<open>
  The arithmetic mean of a non-empty list of points (no mean exists for the empty list):
  the rounded sum of the coordinates divided by the number of points.
\<close>

definition mean_point :: "double point list \<Rightarrow> double point option" where
  "mean_point vs =
     (if vs = [] then None
      else Some (Point (rounded_sum (\<lambda>i. px (vs ! i)) (length vs) / number (length vs))
                       (rounded_sum (\<lambda>i. py (vs ! i)) (length vs) / number (length vs))))"

text \<open>The shoelace sum of the real values of the coordinates, in exact arithmetic.\<close>

definition exact_shoelace :: "double point list \<Rightarrow> real" where
  "exact_shoelace vs =
     (\<Sum>i<length vs. val (px (vs ! i)) * val (py (next_vertex vs i))
                      - val (px (next_vertex vs i)) * val (py (vs ! i)))"

text \<open>
  \<^verbatim>\<open>Polygon.contains(point)\<close>: the loop \<^verbatim>\<open>for (i = 0, j = n - 1; i < n; j = i++)\<close> carries
  \<open>j\<close> and \<open>inside\<close>.
\<close>

definition Polygon_contains :: "double point list \<Rightarrow> double point \<Rightarrow> bool" where
  "Polygon_contains vertices point =
     (if length vertices < 3 then False
      else
        let n = length vertices;
            (j, inside) =
               fold (\<lambda>i (j, inside).
                       let vi = vertices ! i;
                           vj = vertices ! j;
                           intersect =
                             ((py vi > py point) \<noteq> (py vj > py point) \<and>
                              px point < ((px vj - px vi) * (py point - py vi)) / (py vj - py vi) + px vi)
                       in (i, if intersect then \<not> inside else inside)) [0..<n] (n - 1, False)
        in inside)"

definition Polygon_getEdges :: "double point list \<Rightarrow> double line list" where
  "Polygon_getEdges vertices =
     (if length vertices < 2 then []
      else
        let n = length vertices;
            limit = (if Polygon_isClosed vertices \<and> n > 1 then n - 1 else n)
        in map (\<lambda>i. let p1 = vertices ! i; p2 = vertices ! ((i + 1) mod n) in Line p1 p2)
             [0..<limit])"

text \<open>
  \<^verbatim>\<open>Polygon.intersects(polygon)\<close>: the nested loops return \<^verbatim>\<open>true\<close> at the first pair of
  edges whose \<^verbatim>\<open>intersects\<close> is not \<^verbatim>\<open>null\<close>.
\<close>

definition Polygon_intersects :: "double point list \<Rightarrow> double point list \<Rightarrow> bool" where
  "Polygon_intersects this polygon =
     (if length this = 0 \<or> length polygon = 0 then False
      else
        let edges1 = Polygon_getEdges this;
            edges2 = Polygon_getEdges polygon
        in if list_ex (\<lambda>edge1. list_ex (\<lambda>edge2. Line_intersects edge1 edge2 \<noteq> None) edges2) edges1
           then True
           else if length this > 0 \<and> Polygon_contains polygon (this ! 0) then True
           else if length polygon > 0 \<and> Polygon_contains this (polygon ! 0) then True
           else False)"

subsection \<open>Point objects and references\<close>

text \<open>
  Where a claim depends on which \<^verbatim>\<open>Point\<close> object a field refers to, the objects live in
  a store: the list of the \<^verbatim>\<open>Point\<close> objects allocated so far, a reference being the
  index of its object. \<^verbatim>\<open>new Point(x, y)\<close> appends an object; every mutation of a point
  (an assignment to \<^verbatim>\<open>x\<close> or \<^verbatim>\<open>y\<close>, \<^verbatim>\<open>add\<close>, \<^verbatim>\<open>subtract\<close>, \<^verbatim>\<open>multiply\<close>,
  \<^verbatim>\<open>divide\<close>, \<^verbatim>\<open>rotate\<close>) overwrites the coordinates of one object.
\<close>

type_synonym ref = nat

type_synonym store = "real point list"

definition new_Point :: "store \<Rightarrow> real \<Rightarrow> real \<Rightarrow> store \<times> ref" where
  "new_Point s x y = (s @ [Point x y], length s)"

definition Point_clone :: "store \<Rightarrow> ref \<Rightarrow> store \<times> ref" where
  "Point_clone s this = new_Point s (px (s ! this)) (py (s ! this))"

definition Point_mutate :: "store \<Rightarrow> ref \<Rightarrow> real point \<Rightarrow> store" where
  "Point_mutate s this v = s[this := v]"

subsection \<open>Polygon: the vertex list\<close>

text \<open>
  The state of a polygon is its array \<^verbatim>\<open>vertices\<close>, a list of references. The
  constructor is \<^verbatim>\<open>vertices.map((v) => v.clone())\<close>.
\<close>

fun clone_all :: "store \<Rightarrow> ref list \<Rightarrow> store \<times> ref list" where
  "clone_all s [] = (s, [])"
| "clone_all s (v # vs) =
     (let (s1, c) = Point_clone s v;
          (s2, cs) = clone_all s1 vs
      in (s2, c # cs))"

definition Polygon_new :: "store \<Rightarrow> ref list \<Rightarrow> store \<times> ref list" where
  "Polygon_new s vertices = clone_all s vertices"

definition Polygon_addVertex :: "store \<Rightarrow> ref list \<Rightarrow> ref \<Rightarrow> store \<times> ref list" where
  "Polygon_addVertex s this point =
     (let (s1, c) = Point_clone s point in (s1, this @ [c]))"

text \<open>
  An index is a number, any double. \<^verbatim>\<open>Array.prototype.splice\<close> converts its start index
  to an integer (NaN to \<open>0\<close>, any other number truncated toward zero), counts a negative
  one from the end and clamps it to the array. The element access \<^verbatim>\<open>a[index]\<close> names an
  element only when the index is a non-negative integer below the length: a read elsewhere
  gives \<^verbatim>\<open>undefined\<close> (here \<open>None\<close>), and a write at a number that is no integer sets a
  property that is no element.
\<close>

definition splice_start :: "nat \<Rightarrow> double \<Rightarrow> nat" where
  "splice_start len index =
     (case index of
        NaN \<Rightarrow> 0
      | PInf \<Rightarrow> len
      | NInf \<Rightarrow> 0
      | Fin v \<Rightarrow>
          let r = (if v < 0 then \<lceil>v\<rceil> else \<lfloor>v\<rfloor>)
          in if r < 0 then nat (max (int len + r) 0) else nat (min r (int len)))"

definition array_index :: "double \<Rightarrow> nat option" where
  "array_index index =
     (case index of
        Fin v \<Rightarrow> if 0 \<le> v \<and> v = real_of_int \<lfloor>v\<rfloor> then Some (nat \<lfloor>v\<rfloor>) else None
      | _ \<Rightarrow> None)"

definition array_get :: "'a list \<Rightarrow> double \<Rightarrow> 'a option" where
  "array_get a index =
     (case array_index index of
        Some k \<Rightarrow> if k < length a then Some (a ! k) else None
      | None \<Rightarrow> None)"

definition Polygon_insertVertex :: "store \<Rightarrow> ref list \<Rightarrow> double \<Rightarrow> ref \<Rightarrow> store \<times> ref list" where
  "Polygon_insertVertex s this index point =
     (let (s1, c) = Point_clone s point;
          k = splice_start (length this) index
      in (s1, take k this @ [c] @ drop k this))"

definition Polygon_removeVertex :: "ref list \<Rightarrow> double \<Rightarrow> ref list" where
  "Polygon_removeVertex this index =
     (if index \<ge> 0 \<and> index < number (length this)
      then let k = splice_start (length this) index in take k this @ drop (k + 1) this
      else this)"

text \<open>
  \<^verbatim>\<open>getVertex\<close>: \<^verbatim>\<open>if (index < 0 || index >= this.vertices.length) return null\<close>, then
  \<^verbatim>\<open>this.vertices[index].clone()\<close>, which throws a \<^verbatim>\<open>TypeError\<close> when the element read is
  \<^verbatim>\<open>undefined\<close>.
\<close>

definition Polygon_getVertex :: "store \<Rightarrow> ref list \<Rightarrow> double \<Rightarrow> store \<times> (error + ref option)" where
  "Polygon_getVertex s this index =
     (if index < 0 \<or> index \<ge> number (length this) then (s, Inr None)
      else
        case array_get this index of
          None \<Rightarrow> (s, Inl TypeError)
        | Some v \<Rightarrow> let (s1, c) = Point_clone s v in (s1, Inr (Some c)))"

text \<open>
  \<^verbatim>\<open>setVertex\<close>: under its guard an integer index is below the length, so the write
  replaces an element.
\<close>

definition Polygon_setVertex :: "store \<Rightarrow> ref list \<Rightarrow> double \<Rightarrow> ref \<Rightarrow> store \<times> ref list" where
  "Polygon_setVertex s this index point =
     (if index \<ge> 0 \<and> index < number (length this) then
        let (s1, c) = Point_clone s point
        in (s1, case array_index index of Some k \<Rightarrow> this[k := c] | None \<Rightarrow> this)
      else (s, this))"

text \<open>The coordinates of the vertices of a polygon in a store.\<close>

definition vertex_values :: "store \<Rightarrow> ref list \<Rightarrow> real point list" where
  "vertex_values s this = map (\<lambda>r. s ! r) this"

subsection \<open>Circle, Line and Rectangle as objects\<close>

text \<open>
  \<^verbatim>\<open>constructor(center, radius) { this.center = center; this.radius = radius }\<close> and
  \<^verbatim>\<open>constructor(start, end) { this.start = start; this.end = end }\<close>: the fields
  \<^verbatim>\<open>center\<close>, \<^verbatim>\<open>start\<close> and \<^verbatim>\<open>end\<close> are public and hold references.
  \<^verbatim>\<open>Circle.translate\<close> is \<^verbatim>\<open>this.center.add(new Point(dx, dy))\<close>. A rectangle holds four
  numbers; \<^verbatim>\<open>topLeft()\<close>, \<^verbatim>\<open>topRight()\<close>, \<^verbatim>\<open>bottomLeft()\<close>, \<^verbatim>\<open>bottomRight()\<close> and
  \<^verbatim>\<open>center()\<close> build a new point.
\<close>

datatype circle_obj = CircleObj (center_ref: ref) (radius_of: real)

datatype line_obj = LineObj (start_ref: ref) (end_ref: ref)

definition Circle_new :: "ref \<Rightarrow> real \<Rightarrow> circle_obj" where
  "Circle_new c r = CircleObj c r"

definition Line_new :: "ref \<Rightarrow> ref \<Rightarrow> line_obj" where
  "Line_new s e = LineObj s e"

definition Circle_translate :: "store \<Rightarrow> circle_obj \<Rightarrow> real \<Rightarrow> real \<Rightarrow> store" where
  "Circle_translate s this dx dy =
     (let (s1, d) = new_Point s dx dy
      in Point_mutate s1 (center_ref this) (Point_add (s1 ! center_ref this) (s1 ! d)))"

definition Rectangle_topLeft :: "store \<Rightarrow> rectangle \<Rightarrow> store \<times> ref" where
  "Rectangle_topLeft s this = new_Point s (rx this) (ry this)"

definition Rectangle_topRight :: "store \<Rightarrow> rectangle \<Rightarrow> store \<times> ref" where
  "Rectangle_topRight s this = new_Point s (right this) (ry this)"

definition Rectangle_bottomLeft :: "store \<Rightarrow> rectangle \<Rightarrow> store \<times> ref" where
  "Rectangle_bottomLeft s this = new_Point s (rx this) (bottom this)"

definition Rectangle_bottomRight :: "store \<Rightarrow> rectangle \<Rightarrow> store \<times> ref" where
  "Rectangle_bottomRight s this = new_Point s (right this) (bottom this)"

definition Rectangle_center :: "store \<Rightarrow> rectangle \<Rightarrow> store \<times> ref" where
  "Rectangle_center s this = new_Point s (rx this + width this / 2) (ry this + height this / 2)"

text \<open>
  The words of the specification: no aliasing between the polygon \<open>this\<close> and the point
  held at the reference \<open>a\<close>. Overwriting that point with any \<open>v\<close> leaves the vertex
  values of the polygon as they are, and overwriting any vertex of the polygon with \<open>v\<close>
  leaves that point as it is.
\<close>

definition independent :: "store \<Rightarrow> ref list \<Rightarrow> ref \<Rightarrow> real point \<Rightarrow> bool" where
  "independent s this a v \<longleftrightarrow>
     vertex_values (Point_mutate s a v) this = vertex_values s this \<and>
     (\<forall>c \<in> set this. Point_mutate s c v ! a = s ! a)"

subsection \<open>Polygon.convexHull\<close>

text \<open>
  \<^verbatim>\<open>points.map((p) => p.clone()).sort(comparator)\<close>. \<^verbatim>\<open>Array.prototype.sort\<close> is a stable
  sort by the sign of the comparator; it is modelled by the insertion sort that puts an
  element before the first one it does not follow. On points with finite coordinates the
  comparator is zero on equal points only and its sign is that of the lexicographic
  order, so every sort returns this list of values. On other points (a difference of
  two infinities is NaN) the comparator is not consistent, and the language leaves the
  order to the implementation.
\<close>

definition compare_points :: "double point \<Rightarrow> double point \<Rightarrow> double" where
  "compare_points a b = (if strict_eq (px a) (px b) then py a - py b else px a - px b)"

fun insert_point :: "double point \<Rightarrow> double point list \<Rightarrow> double point list" where
  "insert_point p [] = [p]"
| "insert_point p (q # qs) =
     (if compare_points p q \<le> 0 then p # q # qs else q # insert_point p qs)"

definition sort_points :: "double point list \<Rightarrow> double point list" where
  "sort_points ps = foldr insert_point ps []"

text \<open>The helper \<^verbatim>\<open>crossProduct(o, a, b)\<close>.\<close>

definition crossProduct :: "double point \<Rightarrow> double point \<Rightarrow> double point \<Rightarrow> double" where
  "crossProduct orig a b =
     (px a - px orig) * (py b - py orig) - (py a - py orig) * (px b - px orig)"

text \<open>
  The inner loop \<^verbatim>\<open>while (hull.length >= 2 && crossProduct(\<dots>) <= 0) hull.pop()\<close>, on the
  array \<open>harr\<close> (the source's \<^verbatim>\<open>lowerHull\<close> or \<^verbatim>\<open>upperHull\<close>) with its last element at the
  end of the list.
\<close>

function pop_while :: "double point list \<Rightarrow> double point \<Rightarrow> double point list" where
  "pop_while harr p =
     (if length harr \<ge> 2 \<and>
         crossProduct (harr ! (length harr - 2)) (harr ! (length harr - 1)) p \<le> 0
      then pop_while (butlast harr) p
      else harr)"
  by pat_completeness auto
termination
  by (relation "measure (\<lambda>(harr, p). length harr)") auto

declare pop_while.simps [simp del]

definition Polygon_convexHull :: "double point list \<Rightarrow> double point list" where
  "Polygon_convexHull points =
     (if length points < 3 then points
      else
        let sortedPoints = sort_points points;
            lowerHull = fold (\<lambda>p lowerHull. pop_while lowerHull p @ [p]) sortedPoints [];
            upperHull = fold (\<lambda>i upperHull.
                                let p = sortedPoints ! i in pop_while upperHull p @ [p])
                          (rev [0..<length sortedPoints]) [];
            lowerHull1 = butlast lowerHull;
            upperHull1 = butlast upperHull
        in lowerHull1 @ upperHull1)"

text \<open>
  The words of the specification. The points are sorted lexicographically by \<open>x\<close>, then
  \<open>y\<close>: sorted by the key \<open>(x, y)\<close> of their real values in the lexicographic order of
  pairs. A chain is built point by point, newest point first: while the last two chain
  points and the candidate have a cross product \<open>\<le> 0\<close>, as the code computes it, the last
  chain point is dropped, then the candidate is added. The hull is the lower chain
  followed by the upper chain, each without its last point, which is the first point of
  the other.
\<close>

definition finite_point :: "double point \<Rightarrow> bool" where
  "finite_point p \<longleftrightarrow> (\<exists>x y. p = Point (Fin x) (Fin y) \<and> is_double x \<and> is_double y)"

definition lex_sorted :: "double point list \<Rightarrow> double point list" where
  "lex_sorted ps = sort_key (\<lambda>p. (val (px p), val (py p))) ps"

fun chain_push :: "double point \<Rightarrow> double point list \<Rightarrow> double point list" where
  "chain_push p (b # a # st) =
     (if crossProduct a b p \<le> 0 then chain_push p (a # st) else p # b # a # st)"
| "chain_push p st = p # st"

definition chain :: "double point list \<Rightarrow> double point list" where
  "chain ps = rev (foldl (\<lambda>st p. chain_push p st) [] ps)"

definition monotone_chain :: "double point list \<Rightarrow> double point list" where
  "monotone_chain ps =
     butlast (chain (lex_sorted ps)) @ butlast (chain (rev (lex_sorted ps)))"

text \<open>
  What a chain keeps at every step: read from its newest point, no three successive
  points \<open>c\<close>, \<open>b\<close>, \<open>a\<close> of it have a computed cross product \<open>crossProduct a b c \<le> 0\<close>. The
  cross product of the real values, in exact arithmetic, says whether three points turn
  left.
\<close>

fun left_turns :: "double point list \<Rightarrow> bool" where
  "left_turns (c # b # a # st) \<longleftrightarrow> \<not> crossProduct a b c \<le> 0 \<and> left_turns (b # a # st)"
| "left_turns _ \<longleftrightarrow> True"

definition turns_kept :: "double point list \<Rightarrow> bool" where
  "turns_kept xs \<longleftrightarrow> left_turns (rev xs)"

definition exact_cross :: "double point \<Rightarrow> double point \<Rightarrow> double point \<Rightarrow> real" where
  "exact_cross orig a b =
     (val (px a) - val (px orig)) * (val (py b) - val (py orig))
     - (val (py a) - val (py orig)) * (val (px b) - val (px orig))"

text \<open>
  The monotone chain of the specification in exact arithmetic, on points with real
  coordinates: the real values of the coordinates of a point, the cross product, the
  lexicographic sort, the chains and the hull, and the shoelace sum.
\<close>

definition real_point :: "double point \<Rightarrow> real point" where
  "real_point p = Point (val (px p)) (val (py p))"

definition cross :: "real point \<Rightarrow> real point \<Rightarrow> real point \<Rightarrow> real" where
  "cross orig a b =
     (px a - px orig) * (py b - py orig) - (py a - py orig) * (px b - px orig)"

definition exact_sorted :: "real point list \<Rightarrow> real point list" where
  "exact_sorted ps = sort_key (\<lambda>p. (px p, py p)) ps"

fun exact_push :: "real point \<Rightarrow> real point list \<Rightarrow> real point list" where
  "exact_push p (b # a # st) =
     (if cross a b p \<le> 0 then exact_push p (a # st) else p # b # a # st)"
| "exact_push p st = p # st"

definition exact_chain :: "real point list \<Rightarrow> real point list" where
  "exact_chain ps = rev (foldl (\<lambda>st p. exact_push p st) [] ps)"

definition exact_monotone_chain :: "real point list \<Rightarrow> real point list" where
  "exact_monotone_chain ps =
     butlast (exact_chain (exact_sorted ps)) @ butlast (exact_chain (rev (exact_sorted ps)))"

definition real_shoelace :: "real point list \<Rightarrow> real" where
  "real_shoelace vs =
     (\<Sum>i<length vs. px (vs ! i) * py (next_vertex vs i) - px (next_vertex vs i) * py (vs ! i))"

text \<open>
  Counter-clockwise order: the signed area of the polygon, half its shoelace sum, is
  positive. The proof writes the shoelace sum of a closed polygon as a sum over its
  edges, and as a fan of triangles around one vertex; it orders points lexicographically
  and uses the point reflection \<open>neg_point\<close>, which keeps every cross product.
\<close>

definition lex_le :: "real point \<Rightarrow> real point \<Rightarrow> bool" where
  "lex_le a b \<longleftrightarrow> px a < px b \<or> (px a = px b \<and> py a \<le> py b)"

definition lex_lt :: "real point \<Rightarrow> real point \<Rightarrow> bool" where
  "lex_lt a b \<longleftrightarrow> px a < px b \<or> (px a = px b \<and> py a < py b)"

definition edge_term :: "real point \<Rightarrow> real point \<Rightarrow> real" where
  "edge_term a b = px a * py b - px b * py a"

fun path_sum :: "real point list \<Rightarrow> real" where
  "path_sum (a # b # rest) = edge_term a b + path_sum (b # rest)"
| "path_sum _ = 0"

definition closed_sum :: "real point list \<Rightarrow> real" where
  "closed_sum vs = (if vs = [] then 0 else path_sum (vs @ [hd vs]))"

fun fan :: "real point \<Rightarrow> real point list \<Rightarrow> real" where
  "fan t (b # a # rest) = cross t b a + fan t (a # rest)"
| "fan t _ = 0"

definition neg_point :: "real point \<Rightarrow> real point" where
  "neg_point p = Point (- px p) (- py p)"

text \<open>
  The exact chain with its newest point first, as \<open>exact_push\<close> builds it, and what holds
  of it at every step: each three successive points, read from the oldest, turn left.
\<close>

definition exact_stack :: "real point list \<Rightarrow> real point list" where
  "exact_stack xs = foldl (\<lambda>st p. exact_push p st) [] xs"

fun strict_turns :: "real point list \<Rightarrow> bool" where
  "strict_turns (c # b # a # st) \<longleftrightarrow> 0 < cross a b c \<and> strict_turns (b # a # st)"
| "strict_turns _ \<longleftrightarrow> True"

section \<open>Theorems\<close>

subsection \<open>Rounding\<close>

text \<open>
  Powers of two, the binade of a real number, and three ways to evaluate a rounding: a
  real of at most 53 significant bits is a double; a real in a known binade is rounded
  on the grid of that binade.
\<close>

lemma pow2_powr: "pow2 e = 2 powr (real_of_int e)"
proof (cases "0 \<le> e")
  case True
  then show ?thesis by (simp add: pow2_def powr_realpow[symmetric])
next
  case False
  have "(2::real) ^ nat (- e) = 2 powr (real (nat (- e)))"
    by (simp add: powr_realpow)
  also have "\<dots> = 2 powr (- real_of_int e)"
    using False by simp
  finally show ?thesis
    using False by (simp add: pow2_def powr_minus_divide)
qed

lemma pow2_pos: "0 < pow2 e"
  by (simp add: pow2_powr)

lemma floor_log2:
  assumes "pow2 e \<le> \<bar>x\<bar>" "\<bar>x\<bar> < pow2 (e + 1)"
  shows "\<lfloor>log 2 \<bar>x\<bar>\<rfloor> = e"
proof -
  have pos: "0 < \<bar>x\<bar>" using assms(1) pow2_pos[of e] by linarith
  have "real_of_int e \<le> log 2 \<bar>x\<bar>"
    using assms(1) pos by (simp add: le_log_iff pow2_powr)
  moreover have "log 2 \<bar>x\<bar> < real_of_int e + 1"
    using assms(2) pos by (simp add: log_less_iff pow2_powr)
  ultimately show ?thesis by linarith
qed

lemma rnd_binade:
  assumes "pow2 e \<le> \<bar>x\<bar>" "\<bar>x\<bar> < pow2 (e + 1)" "- 1022 \<le> e"
  shows "rnd x = of_int (round_even (x / pow2 (e - 52))) * pow2 (e - 52)"
proof -
  have "x \<noteq> 0" using assms(1) pow2_pos[of e] by auto
  moreover have "expo x = e" using floor_log2[OF assms(1,2)] assms(3) by (simp add: expo_def)
  ultimately show ?thesis by (simp add: rnd_def)
qed

lemma round_even_int [simp]: "round_even (of_int n) = n"
  by (simp add: round_even_def)


lemma pow2_add: "pow2 (a + b) = pow2 a * pow2 b"
  by (simp add: pow2_powr powr_add)

lemma pow2_diff: "pow2 (a - b) = pow2 a / pow2 b"
  by (simp add: pow2_powr powr_diff)

lemma pow2_le: "pow2 a \<le> pow2 b \<longleftrightarrow> a \<le> b"
  by (simp add: pow2_powr)

lemma pow2_nat: "pow2 (int k) = 2 ^ k"
  by (simp add: pow2_def)

lemma pow2_neg_nat: "pow2 (- int k) = 1 / 2 ^ k"
  by (simp add: pow2_powr powr_minus_divide powr_realpow)

lemma pow2_Ints: "0 \<le> e \<Longrightarrow> \<exists>m::int. pow2 e = of_int m"
  by (rule exI[of _ "2 ^ nat e"]) (simp add: pow2_def)

lemma binade_bounds:
  assumes "x \<noteq> 0"
  shows "pow2 \<lfloor>log 2 \<bar>x\<bar>\<rfloor> \<le> \<bar>x\<bar>" and "\<bar>x\<bar> < pow2 (\<lfloor>log 2 \<bar>x\<bar>\<rfloor> + 1)"
proof -
  have pos: "0 < \<bar>x\<bar>" using assms by simp
  have id: "2 powr (log 2 \<bar>x\<bar>) = \<bar>x\<bar>" using pos by simp
  have "2 powr (real_of_int \<lfloor>log 2 \<bar>x\<bar>\<rfloor>) \<le> 2 powr (log 2 \<bar>x\<bar>)"
    by (subst powr_le_cancel_iff) simp_all
  then show "pow2 \<lfloor>log 2 \<bar>x\<bar>\<rfloor> \<le> \<bar>x\<bar>"
    unfolding pow2_powr id .
  have "log 2 \<bar>x\<bar> < real_of_int (\<lfloor>log 2 \<bar>x\<bar>\<rfloor> + 1)" by linarith
  then have "2 powr (log 2 \<bar>x\<bar>) < 2 powr (real_of_int (\<lfloor>log 2 \<bar>x\<bar>\<rfloor> + 1))"
    by (subst powr_less_cancel_iff) simp_all
  then show "\<bar>x\<bar> < pow2 (\<lfloor>log 2 \<bar>x\<bar>\<rfloor> + 1)"
    unfolding pow2_powr id .
qed

lemma rnd_multiple:
  assumes "x / pow2 (expo x - 52) = of_int m"
  shows "rnd x = x"
proof (cases "x = 0")
  case False
  have "rnd x = of_int m * pow2 (expo x - 52)"
    using False assms by (simp add: rnd_def)
  also have "\<dots> = x"
    using assms pow2_pos[of "expo x - 52"] by (simp add: field_simps)
  finally show ?thesis .
qed (simp add: rnd_def)

lemma rnd_scaled_exact:
  assumes "x * 2 ^ k \<in> \<int>" "\<bar>x * 2 ^ k\<bar> \<le> 2 ^ 53" "k \<le> 1074"
  shows "rnd x = x"
proof (cases "x = 0")
  case False
  obtain n :: int where n: "x * 2 ^ k = of_int n"
    using assms(1) by (auto elim: Ints_cases)
  have xn: "x = of_int n * pow2 (- int k)"
    using n by (simp add: pow2_neg_nat field_simps)
  define e where "e = expo x"
  have "\<exists>m::int. x / pow2 (e - 52) = of_int m"
  proof (cases "e - 52 \<le> - int k")
    case True
    obtain j :: int where j: "pow2 (- int k - (e - 52)) = of_int j"
      using pow2_Ints[of "- int k - (e - 52)"] True by auto
    have "x / pow2 (e - 52) = of_int n * pow2 (- int k - (e - 52))"
      using xn by (simp add: pow2_diff)
    then have "x / pow2 (e - 52) = of_int (n * j)"
      using j by simp
    then show ?thesis ..
  next
    case False
    then have "- 1022 < e" using assms(3) by linarith
    then have fl: "e = \<lfloor>log 2 \<bar>x\<bar>\<rfloor>"
      by (simp add: e_def expo_def max_def split: if_splits)
    have lo: "pow2 e \<le> \<bar>x\<bar>"
      using binade_bounds(1)[OF \<open>x \<noteq> 0\<close>] fl by simp
    have "\<bar>x\<bar> * 2 ^ k \<le> 2 ^ 53"
      using assms(2) by (simp add: abs_mult)
    then have "\<bar>x\<bar> \<le> 2 ^ 53 / 2 ^ k"
      by (simp add: field_simps)
    also have "\<dots> = pow2 (53 - int k)"
      unfolding pow2_diff pow2_nat by (simp add: pow2_def)
    finally have hi: "\<bar>x\<bar> \<le> pow2 (53 - int k)" .
    have "pow2 e \<le> pow2 (53 - int k)" using lo hi by linarith
    then have "e \<le> 53 - int k" by (simp add: pow2_le)
    then have e: "e = 53 - int k" using False by linarith
    have ax: "\<bar>x\<bar> = pow2 e" using lo hi e by simp
    have "pow2 e / pow2 (e - 52) = pow2 52"
      using pow2_diff[of e "e - 52"] by simp
    also have "\<dots> = of_int (2 ^ 52)"
      by (simp add: pow2_def)
    finally have q: "pow2 e / pow2 (e - 52) = of_int (2 ^ 52)" .
    show ?thesis
    proof (cases "0 \<le> x")
      case True
      then have "x / pow2 (e - 52) = of_int (2 ^ 52)" using ax q by simp
      then show ?thesis ..
    next
      case False
      then have "x = - pow2 e" using ax by simp
      then have "x / pow2 (e - 52) = of_int (- (2 ^ 52))" using q by simp
      then show ?thesis ..
    qed
  qed
  then show ?thesis
    using rnd_multiple unfolding e_def by blast
qed (simp add: rnd_def)

lemma round_dbl_Fin: "\<bar>rnd x\<bar> < overflow \<Longrightarrow> round_dbl x = Fin (rnd x)"
  unfolding round_dbl_def Let_def by (simp add: abs_less_iff)

lemma round_dbl_scaled:
  assumes "x * 2 ^ k \<in> \<int>" "\<bar>x * 2 ^ k\<bar> \<le> 2 ^ 53" "k \<le> 1074"
  shows "round_dbl x = Fin x"
proof -
  have "(1::real) \<le> 2 ^ k" by simp
  then have "\<bar>x\<bar> * 1 \<le> \<bar>x\<bar> * 2 ^ k"
    by (intro mult_left_mono) simp_all
  then have "\<bar>x\<bar> \<le> 2 ^ 53"
    using assms(2) by (simp add: abs_mult)
  moreover have "(2::real) ^ 53 < overflow" by (simp add: overflow_def)
  ultimately have "\<bar>x\<bar> < overflow" by linarith
  then show ?thesis
    using rnd_scaled_exact[OF assms] round_dbl_Fin[of x] by simp
qed

lemma round_dbl_int:
  assumes "x \<in> \<int>" "\<bar>x\<bar> \<le> 2 ^ 53"
  shows "round_dbl x = Fin x"
  using round_dbl_scaled[of x 0] assms by simp

lemma round_even_close: "\<bar>of_int (round_even q) - q\<bar> \<le> 1 / 2"
  unfolding round_even_def Let_def by (auto simp: abs_le_iff)

lemma round_dbl_binade:
  assumes "pow2 e \<le> \<bar>x\<bar>" "\<bar>x\<bar> < pow2 (e + 1)" "- 1022 \<le> e" "e \<le> 1000"
  shows "round_dbl x = Fin (of_int (round_even (x / pow2 (e - 52))) * pow2 (e - 52))"
proof -
  define u where "u = pow2 (e - 52)"
  define m where "m = round_even (x / u)"
  have u: "0 < u" by (simp add: u_def pow2_pos)
  have "\<bar>of_int m - x / u\<bar> \<le> 1 / 2"
    unfolding m_def by (rule round_even_close)
  then have "\<bar>of_int m - x / u\<bar> * \<bar>u\<bar> \<le> 1 / 2 * u"
    using u by (intro mult_mono) simp_all
  moreover have "(of_int m - x / u) * u = of_int m * u - x"
    using u by (simp add: left_diff_distrib)
  ultimately have d: "\<bar>of_int m * u - x\<bar> \<le> u / 2"
    by (simp only: abs_mult[symmetric])
  have "pow2 (e + 1) \<le> pow2 1001" using assms(4) by (simp add: pow2_le)
  moreover have "u \<le> pow2 1001" using assms(4) by (simp add: u_def pow2_le)
  moreover have "2 * pow2 1001 \<le> overflow" by (simp add: pow2_def overflow_def)
  ultimately have "\<bar>of_int m * u\<bar> < overflow"
    using d assms(2) u by linarith
  then show ?thesis
    using rnd_binade[OF assms(1-3)] round_dbl_Fin[of x]
    by (simp add: u_def m_def)
qed

lemma eps10_value: "eps10 = Fin (7737125245533627 / 2 ^ 86)"
  unfolding eps10_def dbl_def
  by (subst round_dbl_binade[of "- 34"]) (simp_all add: pow2_def round_even_def)

lemma dbl_2: "dbl 2 = Fin 2"
  unfolding dbl_def by (rule round_dbl_int) simp_all

lemma dbl_3: "dbl 3 = Fin 3"
  unfolding dbl_def by (rule round_dbl_int) simp_all

lemma dbl_6: "dbl 6 = Fin 6"
  unfolding dbl_def by (rule round_dbl_int) simp_all

lemmas dbl_ops = plus_double_def minus_double_def uminus_double_def times_double_def
  divide_double_def abs_double_def less_double_def less_eq_double_def zero_double_def
  one_double_def dbl_2 dbl_3 dbl_6 number_def

text \<open>The index lists of the loops over short polygons.\<close>

lemma upt_2: "[0..<2] = [0, 1]"
  by (simp add: upt_rec)

lemma upt_3: "[0..<3] = [0, 1, 2]"
  by (simp add: upt_rec)

lemma upt_4: "[0..<4] = [0, 1, 2, 3]"
  by (simp add: upt_rec)

lemma upt_5: "[0..<5] = [0, 1, 2, 3, 4]"
  by (simp add: upt_rec)

subsection \<open>Integers\<close>

text \<open>Arithmetic on doubles that are integers is exact within \<open>2 ^ 53\<close>.\<close>

lemma int_within_val: "int_within b a \<Longrightarrow> a = Fin (val a)"
  by (auto simp: int_within_def val_def)

lemma int_within_mono: "int_within b a \<Longrightarrow> b \<le> c \<Longrightarrow> int_within c a"
  by (auto simp: int_within_def)

lemma Fin_int: "\<bar>n\<bar> \<le> 2 ^ 53 \<Longrightarrow> round_dbl (of_int n) = Fin (of_int n)" for n :: int
proof -
  assume "\<bar>n\<bar> \<le> 2 ^ 53"
  then have "\<bar>real_of_int n\<bar> \<le> real_of_int (2 ^ 53)"
    by (simp only: of_int_abs[symmetric] of_int_le_iff)
  then show ?thesis
    by (intro round_dbl_int) simp_all
qed

lemma int_neg:
  assumes "int_within b a"
  shows "int_within b (- a)" "val (- a) = - val a"
  using assms by (auto simp: int_within_def uminus_double_def val_def intro: exI[of _ "- n" for n])

lemma int_add:
  assumes "int_within b a" "int_within c d" "b + c \<le> 2 ^ 53"
  shows "int_within (b + c) (a + d)" "val (a + d) = val a + val d"
proof -
  obtain m n :: int where m: "a = Fin (of_int m)" "\<bar>m\<bar> \<le> b" and n: "d = Fin (of_int n)" "\<bar>n\<bar> \<le> c"
    using assms by (auto simp: int_within_def)
  have bd: "\<bar>m + n\<bar> \<le> b + c" using m n by linarith
  then have "\<bar>m + n\<bar> \<le> 2 ^ 53" using assms(3) by linarith
  then have e: "a + d = Fin (of_int (m + n))"
    using Fin_int[of "m + n"] by (simp add: m n plus_double_def)
  show "int_within (b + c) (a + d)"
    unfolding int_within_def using e bd by blast
  show "val (a + d) = val a + val d"
    unfolding e by (simp add: m n val_def)
qed

lemma int_sub:
  assumes "int_within b a" "int_within c d" "b + c \<le> 2 ^ 53"
  shows "int_within (b + c) (a - d)" "val (a - d) = val a - val d"
  using int_add[OF assms(1) int_neg(1)[OF assms(2)] assms(3)] int_neg(2)[OF assms(2)]
  by (simp_all add: minus_double_def)

lemma int_mul:
  assumes "int_within b a" "int_within c d" "b * c \<le> 2 ^ 53"
  shows "int_within (b * c) (a * d)" "val (a * d) = val a * val d"
proof -
  obtain m n :: int where m: "a = Fin (of_int m)" "\<bar>m\<bar> \<le> b" and n: "d = Fin (of_int n)" "\<bar>n\<bar> \<le> c"
    using assms by (auto simp: int_within_def)
  have "\<bar>m\<bar> * \<bar>n\<bar> \<le> b * c"
    using m n by (intro mult_mono) simp_all
  then have bd: "\<bar>m * n\<bar> \<le> b * c" by (simp add: abs_mult)
  then have "\<bar>m * n\<bar> \<le> 2 ^ 53" using assms(3) by linarith
  then have e: "a * d = Fin (of_int (m * n))"
    using Fin_int[of "m * n"] by (simp add: m n times_double_def)
  show "int_within (b * c) (a * d)"
    unfolding int_within_def using e bd by blast
  show "val (a * d) = val a * val d"
    unfolding e by (simp add: m n val_def)
qed

lemma int_small_zero:
  assumes "int_within b a"
  shows "\<bar>a\<bar> < eps10 \<longleftrightarrow> val a = 0"
proof -
  obtain n :: int where n: "a = Fin (of_int n)"
    using assms by (auto simp: int_within_def)
  have "\<bar>real_of_int n\<bar> < 7737125245533627 / 2 ^ 86 \<longleftrightarrow> n = 0"
  proof
    assume "\<bar>real_of_int n\<bar> < 7737125245533627 / 2 ^ 86"
    then have "\<bar>real_of_int n\<bar> < 1" by simp
    then show "n = 0" by linarith
  qed simp
  then show ?thesis
    by (simp add: n eps10_value abs_double_def less_double_def val_def)
qed

lemma int_within_numeral:
  "\<bar>n\<bar> \<le> b \<Longrightarrow> int_within b (Fin (of_int n))"
  by (auto simp: int_within_def)

subsection \<open>Line.intersects\<close>

lemma Line_intersects_unfold:
  "Line_intersects A B =
     (if \<bar>line_det A B\<bar> < eps10 then None
      else if 0 \<le> solved_s A B \<and> solved_s A B \<le> 1 \<and> 0 \<le> solved_t A B \<and> solved_t A B \<le> 1
           then Some (point_on A (solved_t A B)) else None)"
  by (simp add: Line_intersects_def Let_def line_det_def solved_s_def solved_t_def point_on_def
      dir_x_def dir_y_def)

lemma line_det_exact:
  assumes "int_line (2 ^ 25) A" "int_line (2 ^ 25) B"
  shows "int_within (2 ^ 53) (line_det A B)" "val (line_det A B) = exact_det A B"
proof -
  have c: "int_within (2 ^ 25) (px (lstart A))" "int_within (2 ^ 25) (py (lstart A))"
    "int_within (2 ^ 25) (px (lend A))" "int_within (2 ^ 25) (py (lend A))"
    "int_within (2 ^ 25) (px (lstart B))" "int_within (2 ^ 25) (py (lstart B))"
    "int_within (2 ^ 25) (px (lend B))" "int_within (2 ^ 25) (py (lend B))"
    using assms by (simp_all add: int_line_def int_point_def)
  have xa: "int_within (2 ^ 26) (dir_x A)" "val (dir_x A) = val (px (lend A)) - val (px (lstart A))"
    using int_sub[OF c(3) c(1)] by (simp_all add: dir_x_def)
  have ya: "int_within (2 ^ 26) (dir_y A)" "val (dir_y A) = val (py (lend A)) - val (py (lstart A))"
    using int_sub[OF c(4) c(2)] by (simp_all add: dir_y_def)
  have xb: "int_within (2 ^ 26) (dir_x B)" "val (dir_x B) = val (px (lend B)) - val (px (lstart B))"
    using int_sub[OF c(7) c(5)] by (simp_all add: dir_x_def)
  have yb: "int_within (2 ^ 26) (dir_y B)" "val (dir_y B) = val (py (lend B)) - val (py (lstart B))"
    using int_sub[OF c(8) c(6)] by (simp_all add: dir_y_def)
  have p: "int_within (2 ^ 52) (- dir_x B * dir_y A)"
    "val (- dir_x B * dir_y A) = - val (dir_x B) * val (dir_y A)"
    using int_mul[OF int_neg(1)[OF xb(1)] ya(1)] int_neg(2)[OF xb(1)] by simp_all
  have q: "int_within (2 ^ 52) (dir_x A * dir_y B)"
    "val (dir_x A * dir_y B) = val (dir_x A) * val (dir_y B)"
    using int_mul[OF xa(1) yb(1)] by simp_all
  show "int_within (2 ^ 53) (line_det A B)"
    using int_add(1)[OF p(1) q(1)] by (simp add: line_det_def)
  show "val (line_det A B) = exact_det A B"
    using int_add(2)[OF p(1) q(1)]
    by (simp add: line_det_def exact_det_def p(2) q(2) xa(2) ya(2) xb(2) yb(2) algebra_simps)
qed

text \<open>
  Claim C1, as stated, fails on overlapping collinear segments. The segments \<open>A\<close> from
  \<open>(-2, -6)\<close> to \<open>(2, 6)\<close> and \<open>B\<close> from \<open>(-1, -3)\<close> to \<open>(2 ^ 53, 3 * 2 ^ 53)\<close> lie on the line
  \<open>y = 3 x\<close>, the start of \<open>B\<close> is the point of \<open>A\<close> at the parameter \<open>1 / 4\<close>, and the
  determinant of the system is \<open>0\<close>. The code rounds \<open>3 * 2 ^ 53 + 3\<close>, the difference of
  the ordinates of \<open>B\<close>, to \<open>3 * 2 ^ 53 + 4\<close>, computes the determinant \<open>16\<close>, and returns
  the point \<open>(-1, -3)\<close>.
\<close>

theorem Line_intersects_collinear_counterexample:
  "is_double (2 ^ 53) \<and> is_double (3 * 2 ^ 53) \<and>
   exact_det (Line (pt (- 2) (- 6)) (pt 2 6)) (Line (pt (- 1) (- 3)) (pt (2 ^ 53) (3 * 2 ^ 53))) = 0 \<and>
   exact_point_on (Line (pt (- 2) (- 6)) (pt 2 6)) (1 / 4) = (- 1, - 3) \<and>
   line_det (Line (pt (- 2) (- 6)) (pt 2 6)) (Line (pt (- 1) (- 3)) (pt (2 ^ 53) (3 * 2 ^ 53)))
     = Fin 16 \<and>
   Line_intersects (Line (pt (- 2) (- 6)) (pt 2 6)) (Line (pt (- 1) (- 3)) (pt (2 ^ 53) (3 * 2 ^ 53)))
     = Some (pt (- 1) (- 3))"
proof -
  note ev = pt_def dbl_ops eps10_value round_dbl_int round_dbl_scaled[of _ 2]
    round_dbl_binade[of 53] round_dbl_binade[of 54] round_dbl_binade[of 56] pow2_def
    round_even_def
  have d: "is_double (2 ^ 53)" "is_double (3 * 2 ^ 53)"
    by (simp_all add: is_double_def ev)
  have e: "exact_det (Line (pt (- 2) (- 6)) (pt 2 6))
        (Line (pt (- 1) (- 3)) (pt (2 ^ 53) (3 * 2 ^ 53))) = 0"
    "exact_point_on (Line (pt (- 2) (- 6)) (pt 2 6)) (1 / 4) = (- 1, - 3)"
    by (simp_all add: exact_det_def exact_point_on_def pt_def val_def)
  have l: "line_det (Line (pt (- 2) (- 6)) (pt 2 6))
        (Line (pt (- 1) (- 3)) (pt (2 ^ 53) (3 * 2 ^ 53))) = Fin 16"
    by (simp add: line_det_def dir_x_def dir_y_def ev)
  have i: "Line_intersects (Line (pt (- 2) (- 6)) (pt 2 6))
        (Line (pt (- 1) (- 3)) (pt (2 ^ 53) (3 * 2 ^ 53))) = Some (pt (- 1) (- 3))"
    unfolding Line_intersects_def Let_def by (simp add: ev)
  show ?thesis using d e l i by simp
qed

text \<open>
  Claim C1, amended. With the determinant and the two parameters as the code computes
  them, in double arithmetic: \<^verbatim>\<open>Line.intersects\<close> returns \<^verbatim>\<open>null\<close> whenever the computed
  determinant has magnitude below 1e-10; otherwise it returns the point of \<open>A\<close> at the
  computed parameter \<open>t\<close> exactly when both computed parameters lie in \<open>[0, 1]\<close>, and
  \<^verbatim>\<open>null\<close> when they do not (as when one of them is NaN). On segments whose
  coordinates are integers of magnitude at most \<open>2 ^ 25\<close> the computed determinant is the
  determinant, so parallel and collinear segments, the overlapping ones among them, give
  \<^verbatim>\<open>null\<close>. The segment from \<open>(0, 0)\<close> to \<open>(10, 0)\<close> and the segment from \<open>(5, -5)\<close> to
  \<open>(5, 5)\<close> give the point \<open>(5, 0)\<close>.
\<close>

theorem Line_intersects_spec:
  "(\<bar>line_det A B\<bar> < eps10 \<longrightarrow> Line_intersects A B = None) \<and>
   (\<not> \<bar>line_det A B\<bar> < eps10 \<longrightarrow>
      Line_intersects A B =
        (if 0 \<le> solved_s A B \<and> solved_s A B \<le> 1 \<and> 0 \<le> solved_t A B \<and> solved_t A B \<le> 1
         then Some (point_on A (solved_t A B)) else None)) \<and>
   (int_line (2 ^ 25) A \<and> int_line (2 ^ 25) B \<longrightarrow>
      line_det A B = Fin (exact_det A B) \<and>
      (exact_det A B = 0 \<longrightarrow> Line_intersects A B = None)) \<and>
   Line_intersects (Line (pt 0 0) (pt 10 0)) (Line (pt 5 (- 5)) (pt 5 5)) = Some (pt 5 0)"
proof -
  have e: "Line_intersects (Line (pt 0 0) (pt 10 0)) (Line (pt 5 (- 5)) (pt 5 5)) = Some (pt 5 0)"
    unfolding Line_intersects_def Let_def
    by (simp add: pt_def dbl_ops eps10_value round_dbl_int round_dbl_scaled[of _ 1])
  have i: "line_det A B = Fin (exact_det A B) \<and>
      (exact_det A B = 0 \<longrightarrow> Line_intersects A B = None)"
    if h: "int_line (2 ^ 25) A \<and> int_line (2 ^ 25) B"
  proof -
    have w: "int_within (2 ^ 53) (line_det A B)" and v: "val (line_det A B) = exact_det A B"
      using line_det_exact[of A B] h by simp_all
    have "line_det A B = Fin (exact_det A B)"
      using int_within_val[OF w] v by simp
    moreover have "Line_intersects A B = None" if "exact_det A B = 0"
      using int_small_zero[OF w] v that by (simp add: Line_intersects_unfold)
    ultimately show ?thesis by simp
  qed
  have a: "\<bar>line_det A B\<bar> < eps10 \<longrightarrow> Line_intersects A B = None"
    by (simp add: Line_intersects_unfold)
  have b: "\<not> \<bar>line_det A B\<bar> < eps10 \<longrightarrow>
      Line_intersects A B =
        (if 0 \<le> solved_s A B \<and> solved_s A B \<le> 1 \<and> 0 \<le> solved_t A B \<and> solved_t A B \<le> 1
         then Some (point_on A (solved_t A B)) else None)"
    by (simp add: Line_intersects_unfold)
  show ?thesis
    using a b i e by blast
qed

theorem Line_intersects_spec_witness:
  "line_det (Line (pt 0 0) (pt 10 0)) (Line (pt 5 (- 5)) (pt 5 5)) = Fin 100 \<and>
   solved_s (Line (pt 0 0) (pt 10 0)) (Line (pt 5 (- 5)) (pt 5 5)) = Fin (1 / 2) \<and>
   solved_t (Line (pt 0 0) (pt 10 0)) (Line (pt 5 (- 5)) (pt 5 5)) = Fin (1 / 2) \<and>
   point_on (Line (pt 0 0) (pt 10 0)) (Fin (1 / 2)) = pt 5 0 \<and>
   Line_intersects (Line (pt 0 0) (pt 10 0)) (Line (pt 5 (- 5)) (pt 5 5)) = Some (pt 5 0) \<and>
   int_line (2 ^ 25) (Line (pt 0 0) (pt 10 0)) \<and> int_line (2 ^ 25) (Line (pt 0 1) (pt 10 1)) \<and>
   exact_det (Line (pt 0 0) (pt 10 0)) (Line (pt 0 1) (pt 10 1)) = 0 \<and>
   Line_intersects (Line (pt 0 0) (pt 10 0)) (Line (pt 0 1) (pt 10 1)) = None"
proof -
  have w: "int_within (2 ^ 25) (Fin 0)" "int_within (2 ^ 25) (Fin 1)" "int_within (2 ^ 25) (Fin 10)"
    unfolding int_within_def
    using exI[of "\<lambda>n. Fin 0 = Fin (real_of_int n) \<and> \<bar>n\<bar> \<le> 2 ^ 25" 0]
      exI[of "\<lambda>n. Fin 1 = Fin (real_of_int n) \<and> \<bar>n\<bar> \<le> 2 ^ 25" 1]
      exI[of "\<lambda>n. Fin 10 = Fin (real_of_int n) \<and> \<bar>n\<bar> \<le> 2 ^ 25" 10]
    by simp_all
  have il: "int_line (2 ^ 25) (Line (pt 0 0) (pt 10 0))" "int_line (2 ^ 25) (Line (pt 0 1) (pt 10 1))"
    using w by (simp_all add: int_line_def int_point_def pt_def)
  have ed: "exact_det (Line (pt 0 0) (pt 10 0)) (Line (pt 0 1) (pt 10 1)) = 0"
    by (simp add: exact_det_def pt_def val_def)
  note ev = pt_def dbl_ops eps10_value round_dbl_int round_dbl_scaled[of _ 1]
  have d: "line_det (Line (pt 0 0) (pt 10 0)) (Line (pt 5 (- 5)) (pt 5 5)) = Fin 100"
    by (simp add: line_det_def dir_x_def dir_y_def ev)
  have s: "solved_s (Line (pt 0 0) (pt 10 0)) (Line (pt 5 (- 5)) (pt 5 5)) = Fin (1 / 2)"
    unfolding solved_s_def d by (simp add: dir_x_def dir_y_def ev)
  have t: "solved_t (Line (pt 0 0) (pt 10 0)) (Line (pt 5 (- 5)) (pt 5 5)) = Fin (1 / 2)"
    unfolding solved_t_def d by (simp add: dir_x_def dir_y_def ev)
  have p: "point_on (Line (pt 0 0) (pt 10 0)) (Fin (1 / 2)) = pt 5 0"
    by (simp add: point_on_def dir_x_def dir_y_def ev)
  have d0: "\<bar>line_det (Line (pt 0 0) (pt 10 0)) (Line (pt 0 1) (pt 10 1))\<bar> < eps10"
    by (simp add: line_det_def dir_x_def dir_y_def ev)
  have n: "Line_intersects (Line (pt 0 0) (pt 10 0)) (Line (pt 0 1) (pt 10 1)) = None"
    using Line_intersects_spec[of "Line (pt 0 0) (pt 10 0)" "Line (pt 0 1) (pt 10 1)"] il ed
    by blast
  show ?thesis
    using Line_intersects_spec[of "Line (pt 0 0) (pt 10 0)" "Line (pt 5 (- 5)) (pt 5 5)"]
      d s t p il ed n
    by simp
qed

subsection \<open>Point.divide\<close>

text \<open>
  Claim C6. Both forms of \<^verbatim>\<open>Point.divide\<close> fail with the division-by-zero error exactly
  when the scalar is 0, and the failing instance method leaves its receiver as it was;
  for every other scalar both yield the point \<open>(x / s, y / s)\<close>, the instance method as
  the new state of its receiver.
\<close>

theorem Point_divide_spec:
  "(snd (Point_divide p s) = Some DivisionByZero \<longleftrightarrow> s = 0) \<and>
   (Point_divide_static p s = Inl DivisionByZero \<longleftrightarrow> s = 0) \<and>
   (s = 0 \<longrightarrow> fst (Point_divide p s) = p) \<and>
   (s \<noteq> 0 \<longrightarrow> Point_divide p s = (Point (px p / s) (py p / s), None) \<and>
              Point_divide_static p s = Inr (Point (px p / s) (py p / s)))"
  by (simp add: Point_divide_def Point_divide_static_def Let_def)

theorem Point_divide_spec_witness:
  "fst (Point_divide (Point (Fin 3) (Fin 4)) (Fin 0)) = Point (Fin 3) (Fin 4) \<and>
   snd (Point_divide (Point (Fin 3) (Fin 4)) (Fin 0)) = Some DivisionByZero \<and>
   Point_divide (Point (Fin 3) (Fin 4)) (Fin 2) = (Point (Fin (3 / 2)) (Fin 2), None) \<and>
   Point_divide_static (Point (Fin 3) (Fin 4)) (Fin 2) = Inr (Point (Fin (3 / 2)) (Fin 2)) \<and>
   Point_divide (Point (Fin 3) (Fin 4)) NaN = (Point NaN NaN, None)"
  using Point_divide_spec[of "Point (Fin 3) (Fin 4)" "Fin 0"]
    Point_divide_spec[of "Point (Fin 3) (Fin 4)" "Fin 2"]
    Point_divide_spec[of "Point (Fin 3) (Fin 4)" NaN]
  by (simp add: dbl_ops round_dbl_int round_dbl_scaled[of _ 1])

subsection \<open>Rectangle.intersects and Rectangle.intersection\<close>





subsection \<open>The vertex list at an index out of range\<close>

text \<open>
  Claim C10. At an index below \<open>0\<close> or at least the vertex count, \<^verbatim>\<open>getVertex\<close> returns
  \<^verbatim>\<open>null\<close>, and \<^verbatim>\<open>removeVertex\<close> and \<^verbatim>\<open>setVertex\<close> leave the vertex list as it was; no
  error is raised and no point is allocated or changed. The index NaN is neither below
  \<open>0\<close> nor at least the vertex count, and it is no index of the list: \<^verbatim>\<open>removeVertex\<close> and
  \<^verbatim>\<open>setVertex\<close>, whose guard accepts the indices in range, ignore it, and \<^verbatim>\<open>getVertex\<close>,
  whose guard rejects the indices out of range, reads \<^verbatim>\<open>vertices[NaN]\<close> and throws a
  \<^verbatim>\<open>TypeError\<close>, on every polygon.
\<close>

theorem Polygon_index_out_of_range:
  "(index < 0 \<or> number (length this) \<le> index \<longrightarrow>
      Polygon_getVertex s this index = (s, Inr None) \<and>
      Polygon_removeVertex this index = this \<and>
      Polygon_setVertex s this index p = (s, this)) \<and>
   Polygon_getVertex s this NaN = (s, Inl TypeError) \<and>
   Polygon_removeVertex this NaN = this \<and>
   Polygon_setVertex s this NaN p = (s, this)"
proof -
  have lt: "a < b \<Longrightarrow> \<not> b \<le> a" for a b :: double
    by (auto simp: less_eq_double_def less_double_def split: double.splits)
  have le: "a \<le> b \<Longrightarrow> \<not> b < a" for a b :: double
    by (auto simp: less_eq_double_def less_double_def split: double.splits)
  have nan: "\<not> NaN < a" "\<not> a \<le> NaN" "\<not> NaN \<le> a" "array_index NaN = None" for a
    by (simp_all add: less_eq_double_def less_double_def array_index_def)
  show ?thesis
    using lt[of index 0] le[of "number (length this)" index]
    by (auto simp: Polygon_getVertex_def Polygon_removeVertex_def Polygon_setVertex_def
        array_get_def nan)
qed

theorem Polygon_index_out_of_range_witness:
  "Polygon_getVertex [Point 1 2, Point 3 4] [0, 1] (Fin 2) = ([Point 1 2, Point 3 4], Inr None) \<and>
   Polygon_removeVertex [0, 1] (Fin 2) = [0, 1] \<and>
   Polygon_setVertex [Point 1 2, Point 3 4] [0, 1] (Fin 2) 0 = ([Point 1 2, Point 3 4], [0, 1]) \<and>
   Polygon_getVertex [Point 1 2, Point 3 4] [0, 1] (Fin (- 1)) = ([Point 1 2, Point 3 4], Inr None) \<and>
   Polygon_removeVertex [0, 1] PInf = [0, 1] \<and>
   Polygon_setVertex [Point 1 2, Point 3 4] [0, 1] NInf 0 = ([Point 1 2, Point 3 4], [0, 1]) \<and>
   Polygon_getVertex [Point 1 2, Point 3 4] [0, 1] NaN = ([Point 1 2, Point 3 4], Inl TypeError)"
  using Polygon_index_out_of_range[of "Fin 2" "[0, 1]" "[Point 1 2, Point 3 4]" 0]
    Polygon_index_out_of_range[of "Fin (- 1)" "[0, 1]" "[Point 1 2, Point 3 4]" 0]
    Polygon_index_out_of_range[of PInf "[0, 1]" "[Point 1 2, Point 3 4]" 0]
    Polygon_index_out_of_range[of NInf "[0, 1]" "[Point 1 2, Point 3 4]" 0]
  by (simp add: dbl_ops)

subsection \<open>Ownership of points\<close>

lemma Point_clone_eq: "Point_clone s r = (s @ [s ! r], length s)"
  by (simp add: Point_clone_def new_Point_def)

lemma clone_all_refs:
  "snd (clone_all s vs) = [length s..<length s + length vs] \<and>
   length (fst (clone_all s vs)) = length s + length vs"
proof (induction vs arbitrary: s)
  case Nil
  show ?case by simp
next
  case (Cons v vs)
  have ih: "snd (clone_all (s @ [s ! v]) vs) = [Suc (length s)..<Suc (length s) + length vs]"
    "length (fst (clone_all (s @ [s ! v]) vs)) = Suc (length s) + length vs"
    using Cons.IH[of "s @ [s ! v]"] by simp_all
  have e: "[length s..<length s + length (v # vs)]
           = length s # [Suc (length s)..<Suc (length s) + length vs]"
    by (subst upt_conv_Cons) simp_all
  have c: "clone_all s (v # vs)
           = (fst (clone_all (s @ [s ! v]) vs), length s # snd (clone_all (s @ [s ! v]) vs))"
    by (simp add: Point_clone_eq split_beta)
  show ?case unfolding e c using ih by (simp del: upt_Suc)
qed

lemma clone_all_store:
  "\<forall>r \<in> set vs. r < length s \<Longrightarrow> fst (clone_all s vs) = s @ map (\<lambda>r. s ! r) vs"
proof (induction vs arbitrary: s)
  case Nil
  show ?case by simp
next
  case (Cons v vs)
  have valid: "\<forall>r \<in> set vs. r < length (s @ [s ! v])" using Cons.prems by auto
  have "map (\<lambda>r. (s @ [s ! v]) ! r) vs = map (\<lambda>r. s ! r) vs"
    using Cons.prems by (auto simp: nth_append)
  then show ?case
    using Cons.IH[OF valid] by (simp add: Point_clone_eq split_beta)
qed

lemma independent_fresh:
  assumes "a \<notin> set this"
  shows "independent s this a v"
proof -
  have "a \<noteq> c" "c \<noteq> a" if "c \<in> set this" for c using that assms by auto
  then show ?thesis
    by (simp add: independent_def vertex_values_def Point_mutate_def)
qed

lemma Polygon_new_values:
  assumes "\<forall>r \<in> set vs. r < length s"
  shows "vertex_values (fst (Polygon_new s vs)) (snd (Polygon_new s vs)) = vertex_values s vs"
proof -
  have "map (\<lambda>r. (s @ map (\<lambda>r. s ! r) vs) ! r) [length s..<length s + length vs]
        = map (\<lambda>r. s ! r) vs"
    by (rule nth_equalityI) (simp_all add: nth_append)
  then show ?thesis
    unfolding Polygon_new_def vertex_values_def
    using clone_all_refs[of s vs] clone_all_store[OF assms] by simp
qed

text \<open>
  Claim C9, as stated, fails for \<^verbatim>\<open>Circle\<close> (and \<^verbatim>\<open>Line\<close> has the same constructor): the
  circle built on the caller's point at reference 0 holds that very reference, so
  overwriting the caller's point moves the center of the circle, and translating the
  circle moves the caller's point.
\<close>

theorem Circle_aliasing_counterexample:
  "center_ref (Circle_new 0 2) = 0 \<and>
   [Point 1 1] ! center_ref (Circle_new 0 2) = Point 1 1 \<and>
   Point_mutate [Point 1 1] 0 (Point 5 1) ! center_ref (Circle_new 0 2) = Point 5 1 \<and>
   Circle_translate [Point 1 1] (Circle_new 0 2) 3 0 ! 0 = Point 4 1"
  by (simp add: Circle_new_def Point_mutate_def Circle_translate_def new_Point_def Point_add_def)

text \<open>
  Claim C9, amended. The \<^verbatim>\<open>Polygon\<close> constructor and the vertex mutators \<^verbatim>\<open>addVertex\<close>,
  \<^verbatim>\<open>insertVertex\<close> and \<^verbatim>\<open>setVertex\<close> store a new copy of each incoming point: a point
  that existed before the call and was no vertex object of the polygon, the incoming
  ones among them, stays independent of the polygon, and the constructor's copies carry
  the values of the incoming points. \<^verbatim>\<open>getVertex\<close> returns a new copy and no vertex of
  the polygon. A rectangle builds a new point on each read of a corner or of its center.
  The \<^verbatim>\<open>Circle\<close> and \<^verbatim>\<open>Line\<close> constructors store the references they are given.
\<close>

theorem Polygon_ownership:
  "((\<forall>r \<in> set vs. r < length s) \<and> a < length s \<longrightarrow>
      independent (fst (Polygon_new s vs)) (snd (Polygon_new s vs)) a v \<and>
      vertex_values (fst (Polygon_new s vs)) (snd (Polygon_new s vs)) = vertex_values s vs) \<and>
   (a < length s \<and> a \<notin> set this \<longrightarrow>
      independent (fst (Polygon_addVertex s this p)) (snd (Polygon_addVertex s this p)) a v \<and>
      independent (fst (Polygon_insertVertex s this index p))
        (snd (Polygon_insertVertex s this index p)) a v \<and>
      independent (fst (Polygon_setVertex s this index p))
        (snd (Polygon_setVertex s this index p)) a v) \<and>
   ((\<forall>r \<in> set this. r < length s) \<longrightarrow>
      (\<forall>s' c. Polygon_getVertex s this index = (s', Inr (Some c)) \<longrightarrow>
         c \<notin> set this \<and> c = length s \<and>
         array_get this index = Some (this ! nat \<lfloor>val index\<rfloor>) \<and>
         s' ! c = s ! (this ! nat \<lfloor>val index\<rfloor>) \<and>
         vertex_values s' this = vertex_values s this)) \<and>
   snd (Rectangle_topLeft s rect) = length s \<and>
   snd (Rectangle_topRight s rect) = length s \<and>
   snd (Rectangle_bottomLeft s rect) = length s \<and>
   snd (Rectangle_bottomRight s rect) = length s \<and>
   snd (Rectangle_center s rect) = length s \<and>
   center_ref (Circle_new p r) = p \<and>
   start_ref (Line_new p q) = p \<and> end_ref (Line_new p q) = q"
proof (intro conjI impI allI)
  assume h: "(\<forall>r \<in> set vs. r < length s) \<and> a < length s"
  have "a \<notin> set (snd (Polygon_new s vs))"
    using h clone_all_refs[of s vs] by (simp add: Polygon_new_def)
  then show "independent (fst (Polygon_new s vs)) (snd (Polygon_new s vs)) a v"
    by (rule independent_fresh)
  show "vertex_values (fst (Polygon_new s vs)) (snd (Polygon_new s vs)) = vertex_values s vs"
    using h by (simp add: Polygon_new_values)
next
  assume h: "a < length s \<and> a \<notin> set this"
  have "a \<notin> set (snd (Polygon_addVertex s this p))"
    using h by (simp add: Polygon_addVertex_def Point_clone_eq)
  then show "independent (fst (Polygon_addVertex s this p)) (snd (Polygon_addVertex s this p)) a v"
    by (rule independent_fresh)
  have "set (take k this) \<union> set (drop k this) = set this" for k
    by (metis append_take_drop_id set_append)
  then have "a \<notin> set (snd (Polygon_insertVertex s this index p))"
    using h by (simp add: Polygon_insertVertex_def Point_clone_eq Let_def)
  then show "independent (fst (Polygon_insertVertex s this index p))
        (snd (Polygon_insertVertex s this index p)) a v"
    by (rule independent_fresh)
  have "a \<notin> set (this[k := length s])" for k
    using h set_update_subset_insert[of this k "length s"] by auto
  then have "a \<notin> set (snd (Polygon_setVertex s this index p))"
    using h by (simp add: Polygon_setVertex_def Point_clone_eq split: option.splits)
  then show "independent (fst (Polygon_setVertex s this index p))
        (snd (Polygon_setVertex s this index p)) a v"
    by (rule independent_fresh)
next
  fix s' c
  assume valid: "\<forall>r \<in> set this. r < length s"
    and g: "Polygon_getVertex s this index = (s', Inr (Some c))"
  have a: "array_get this index = Some (this ! nat \<lfloor>val index\<rfloor>)"
    using g
    by (auto simp: Polygon_getVertex_def array_get_def array_index_def val_def
        split: if_splits option.splits double.splits)
  have c: "c = length s" and s': "s' = s @ [s ! (this ! nat \<lfloor>val index\<rfloor>)]"
    using g a by (auto simp: Polygon_getVertex_def Point_clone_eq split: if_splits)
  show "array_get this index = Some (this ! nat \<lfloor>val index\<rfloor>)" by (rule a)
  show "c \<notin> set this" using valid c by auto
  show "c = length s" by (rule c)
  show "s' ! c = s ! (this ! nat \<lfloor>val index\<rfloor>)" using c s' by simp
  show "vertex_values s' this = vertex_values s this"
    using valid s' by (auto simp: vertex_values_def nth_append)
qed (simp_all add: Rectangle_topLeft_def Rectangle_topRight_def Rectangle_bottomLeft_def
      Rectangle_bottomRight_def Rectangle_center_def new_Point_def Circle_new_def Line_new_def)

theorem Polygon_ownership_witness:
  "Polygon_new [Point 1 1, Point 2 2] [0, 1]
     = ([Point 1 1, Point 2 2, Point 1 1, Point 2 2], [2, 3]) \<and>
   vertex_values (Point_mutate [Point 1 1, Point 2 2, Point 1 1, Point 2 2] 0 (Point 9 9)) [2, 3]
     = [Point 1 1, Point 2 2] \<and>
   Point_mutate [Point 1 1, Point 2 2, Point 1 1, Point 2 2] 2 (Point 9 9) ! 0 = Point 1 1 \<and>
   Polygon_addVertex [Point 1 1, Point 2 2, Point 1 1, Point 2 2] [2, 3] 0
     = ([Point 1 1, Point 2 2, Point 1 1, Point 2 2, Point 1 1], [2, 3, 4]) \<and>
   vertex_values (Point_mutate [Point 1 1, Point 2 2, Point 1 1, Point 2 2, Point 1 1] 0 (Point 9 9))
     [2, 3, 4] = [Point 1 1, Point 2 2, Point 1 1] \<and>
   Polygon_getVertex [Point 1 1, Point 2 2, Point 1 1, Point 2 2] [2, 3] (Fin 1)
     = ([Point 1 1, Point 2 2, Point 1 1, Point 2 2, Point 2 2], Inr (Some 4))"
proof -
  have n: "Polygon_new [Point 1 1, Point 2 2] [0, 1]
     = ([Point 1 1, Point 2 2, Point 1 1, Point 2 2], [2, 3])"
    by (simp add: Polygon_new_def Point_clone_eq)
  have ad: "Polygon_addVertex [Point 1 1, Point 2 2, Point 1 1, Point 2 2] [2, 3] 0
     = ([Point 1 1, Point 2 2, Point 1 1, Point 2 2, Point 1 1], [2, 3, 4])"
    by (simp add: Polygon_addVertex_def Point_clone_eq)
  have g: "Polygon_getVertex [Point 1 1, Point 2 2, Point 1 1, Point 2 2] [2, 3] (Fin 1)
     = ([Point 1 1, Point 2 2, Point 1 1, Point 2 2, Point 2 2], Inr (Some 4))"
    by (simp add: Polygon_getVertex_def Point_clone_eq array_get_def array_index_def dbl_ops)
  have i1: "independent [Point 1 1, Point 2 2, Point 1 1, Point 2 2] [2, 3] 0 (Point 9 9)"
    using Polygon_ownership[of "[0, 1]" "[Point 1 1, Point 2 2]" 0 "Point 9 9"]
    unfolding n by simp
  have i2: "independent [Point 1 1, Point 2 2, Point 1 1, Point 2 2, Point 1 1] [2, 3, 4] 0 (Point 9 9)"
    using Polygon_ownership[of _ "[Point 1 1, Point 2 2, Point 1 1, Point 2 2]" 0 _ "[2, 3]" 0]
    unfolding ad by simp
  have v1: "vertex_values [Point 1 1, Point 2 2, Point 1 1, Point 2 2] [2, 3] = [Point 1 1, Point 2 2]"
    by (simp add: vertex_values_def)
  have v2: "vertex_values [Point 1 1, Point 2 2, Point 1 1, Point 2 2, Point 1 1] [2, 3, 4]
      = [Point 1 1, Point 2 2, Point 1 1]"
    by (simp add: vertex_values_def)
  show ?thesis
    using n ad g i1 i2 v1 v2 unfolding independent_def by simp
qed

subsection \<open>Circle.fromThreePoints\<close>








subsection \<open>Polygon.area\<close>

lemma area_fold_shoelace:
  "k \<le> length vs \<Longrightarrow>
   fold (\<lambda>i area.
      let j = (i + 1) mod length vs;
          area1 = area + px (vs ! i) * py (vs ! j);
          area2 = area1 - px (vs ! j) * py (vs ! i)
      in area2) [0..<k] 0 = shoelace_upto vs k"
  by (induction k) (simp_all add: Let_def next_vertex_def)

lemma Polygon_area_shoelace:
  "3 \<le> length vs \<Longrightarrow> Polygon_area vs = \<bar>shoelace vs\<bar> / dbl 2"
  unfolding Polygon_area_def shoelace_def Let_def
  using area_fold_shoelace[of "length vs" vs, unfolded Let_def] by simp

text \<open>
  The shoelace sum in exact arithmetic changes sign with the winding, and on integer
  coordinates the code computes it without rounding.
\<close>

lemma exact_shoelace_rev: "exact_shoelace (rev vs) = - exact_shoelace vs"
proof -
  let ?n = "length vs"
  let ?t = "\<lambda>ws i. val (px (ws ! i)) * val (py (next_vertex ws i))
                  - val (px (next_vertex ws i)) * val (py (ws ! i))"
  let ?g = "\<lambda>i. if i = ?n - 1 then ?n - 1 else ?n - 2 - i"
  have "(\<Sum>i\<in>{..<length (rev vs)}. ?t (rev vs) i) = (\<Sum>k\<in>{..<?n}. - ?t vs k)"
    unfolding length_rev
  proof (rule sum.reindex_bij_witness[where i = ?g and j = ?g])
    fix k assume "k \<in> {..<?n}"
    then show "?g (?g k) = k" by auto
  next
    fix k assume "k \<in> {..<?n}"
    then show "?g k \<in> {..<?n}" by auto
  next
    fix i assume "i \<in> {..<?n}"
    then show "?g (?g i) = i" by auto
  next
    fix i assume "i \<in> {..<?n}"
    then show "?g i \<in> {..<?n}" by auto
  next
    fix i assume i: "i \<in> {..<?n}"
    show "- ?t vs (?g i) = ?t (rev vs) i"
    proof (cases "i = ?n - 1")
      case True
      with i have n: "0 < ?n" by auto
      have a: "rev vs ! i = vs ! 0" using True n by (simp add: rev_nth)
      have b: "next_vertex (rev vs) i = vs ! (?n - 1)"
        using True n by (simp add: next_vertex_def rev_nth)
      have c: "next_vertex vs (?n - 1) = vs ! 0" using n by (simp add: next_vertex_def)
      show ?thesis using True a b c by simp
    next
      case False
      with i have lt: "i + 1 < ?n" by auto
      have a: "rev vs ! i = vs ! (?n - 1 - i)" using lt by (simp add: rev_nth)
      have b: "next_vertex (rev vs) i = vs ! (?n - 2 - i)"
        using lt by (simp add: next_vertex_def rev_nth)
      have "(?n - 2 - i + 1) mod ?n = ?n - 1 - i" using lt by simp
      then have c: "next_vertex vs (?n - 2 - i) = vs ! (?n - 1 - i)"
        by (simp add: next_vertex_def)
      show ?thesis using False a b c by simp
    qed
  qed
  also have "\<dots> = - (\<Sum>k\<in>{..<?n}. ?t vs k)" by (rule sum_negf)
  finally show ?thesis by (simp add: exact_shoelace_def)
qed

lemma shoelace_upto_exact:
  assumes "list_all (int_point (2 ^ 20)) vs" "length vs \<le> 2 ^ 12"
  shows "i \<le> length vs \<Longrightarrow>
     int_within (int i * 2 ^ 41) (shoelace_upto vs i) \<and>
     val (shoelace_upto vs i)
       = (\<Sum>j<i. val (px (vs ! j)) * val (py (next_vertex vs j))
                  - val (px (next_vertex vs j)) * val (py (vs ! j)))"
proof (induction i)
  case 0
  show ?case by (simp add: int_within_def zero_double_def val_def)
next
  case (Suc i)
  then have i: "i < length vs" by simp
  then have "0 < length vs" by auto
  then have j: "(i + 1) mod length vs < length vs" by (rule mod_less_divisor)
  have p: "int_point (2 ^ 20) (vs ! i)" "int_point (2 ^ 20) (next_vertex vs i)"
    using assms(1) i j by (simp_all add: list_all_length next_vertex_def)
  have acc: "int_within (int i * 2 ^ 41) (shoelace_upto vs i)"
    and av: "val (shoelace_upto vs i)
       = (\<Sum>j<i. val (px (vs ! j)) * val (py (next_vertex vs j))
                  - val (px (next_vertex vs j)) * val (py (vs ! j)))"
    using Suc by simp_all
  have m1: "int_within (2 ^ 40) (px (vs ! i) * py (next_vertex vs i))"
    "val (px (vs ! i) * py (next_vertex vs i)) = val (px (vs ! i)) * val (py (next_vertex vs i))"
    using int_mul[of "2 ^ 20" "px (vs ! i)" "2 ^ 20" "py (next_vertex vs i)"] p
    by (simp_all add: int_point_def)
  have m2: "int_within (2 ^ 40) (px (next_vertex vs i) * py (vs ! i))"
    "val (px (next_vertex vs i) * py (vs ! i)) = val (px (next_vertex vs i)) * val (py (vs ! i))"
    using int_mul[of "2 ^ 20" "px (next_vertex vs i)" "2 ^ 20" "py (vs ! i)"] p
    by (simp_all add: int_point_def)
  have "Suc i \<le> 2 ^ 12" using i assms(2) by linarith
  then have "int (Suc i) \<le> int (2 ^ 12)" by (rule of_nat_mono)
  then have "int i + 1 \<le> 2 ^ 12" by simp
  then have b: "int i * 2 ^ 41 + 2 ^ 40 + 2 ^ 40 \<le> 2 ^ 53" by simp
  have a1: "int_within (int i * 2 ^ 41 + 2 ^ 40)
       (shoelace_upto vs i + px (vs ! i) * py (next_vertex vs i))"
    "val (shoelace_upto vs i + px (vs ! i) * py (next_vertex vs i))
       = val (shoelace_upto vs i) + val (px (vs ! i) * py (next_vertex vs i))"
    using int_add[OF acc m1(1)] b by simp_all
  have a2: "int_within (int i * 2 ^ 41 + 2 ^ 40 + 2 ^ 40) (shoelace_upto vs (Suc i))"
    "val (shoelace_upto vs (Suc i))
       = val (shoelace_upto vs i + px (vs ! i) * py (next_vertex vs i))
         - val (px (next_vertex vs i) * py (vs ! i))"
    using int_sub[OF a1(1) m2(1)] b by simp_all
  have "int i * 2 ^ 41 + 2 ^ 40 + 2 ^ 40 = int (Suc i) * 2 ^ 41" by simp
  then show ?case
    using a2 by (simp add: a1(2) m1(2) m2(2) av)
qed

lemma integer_area:
  assumes "list_all (int_point (2 ^ 20)) vs" "3 \<le> length vs" "length vs \<le> 2 ^ 12"
  shows "Polygon_area vs = Fin (\<bar>exact_shoelace vs\<bar> / 2)"
proof -
  have "int (length vs) * 2 ^ 41 \<le> 2 ^ 12 * 2 ^ 41"
    using assms(3) by (intro mult_right_mono) simp_all
  then have w: "int_within (2 ^ 53) (shoelace vs)" and v: "val (shoelace vs) = exact_shoelace vs"
    using shoelace_upto_exact[OF assms(1,3), of "length vs"]
      int_within_mono[of "int (length vs) * 2 ^ 41" "shoelace vs" "2 ^ 53"]
    by (simp_all add: shoelace_def exact_shoelace_def)
  obtain n :: int where n: "shoelace vs = Fin (of_int n)" "\<bar>n\<bar> \<le> 2 ^ 53"
    using w by (auto simp: int_within_def)
  have "\<bar>real_of_int n\<bar> \<le> real_of_int (2 ^ 53)"
    using n(2) by (simp only: of_int_abs[symmetric] of_int_le_iff)
  then have "round_dbl (\<bar>real_of_int n\<bar> / 2) = Fin (\<bar>real_of_int n\<bar> / 2)"
    by (intro round_dbl_scaled[of _ 1]) simp_all
  then have "\<bar>shoelace vs\<bar> / dbl 2 = Fin (\<bar>real_of_int n\<bar> / 2)"
    by (simp add: n(1) dbl_2 abs_double_def divide_double_def)
  moreover have "exact_shoelace vs = real_of_int n"
    using v by (simp add: n(1) val_def)
  ultimately show ?thesis
    using assms(2) by (simp add: Polygon_area_shoelace)
qed

text \<open>
  Claim C7, as stated, fails: the area depends on the winding. The triangle \<open>(1, 1)\<close>,
  \<open>(0, 2 ^ 52)\<close>, \<open>(-1, -1)\<close> has the shoelace sum \<open>2 ^ 53\<close> and the area \<open>2 ^ 52\<close>, which
  \<^verbatim>\<open>area\<close> returns. On the same vertices in the reverse order the running sum reaches
  \<open>- 2 ^ 53\<close>, the next sum \<open>- 2 ^ 53 - 1\<close> is rounded to \<open>- 2 ^ 53\<close>, and \<^verbatim>\<open>area\<close>
  returns \<open>2 ^ 52 - 1 / 2\<close>.
\<close>

theorem Polygon_area_winding_counterexample:
  "is_double (2 ^ 52) \<and>
   exact_shoelace [pt 1 1, pt 0 (2 ^ 52), pt (- 1) (- 1)] = 2 ^ 53 \<and>
   Polygon_area [pt 1 1, pt 0 (2 ^ 52), pt (- 1) (- 1)] = Fin (2 ^ 52) \<and>
   Polygon_area (rev [pt 1 1, pt 0 (2 ^ 52), pt (- 1) (- 1)]) = Fin (2 ^ 52 - 1 / 2) \<and>
   Polygon_area (rev [pt 1 1, pt 0 (2 ^ 52), pt (- 1) (- 1)])
     \<noteq> Polygon_area [pt 1 1, pt 0 (2 ^ 52), pt (- 1) (- 1)]"
proof -
  note ev = pt_def dbl_ops round_dbl_int round_dbl_scaled[of _ 1] round_dbl_binade[of 53]
    pow2_def round_even_def
  have d: "is_double (2 ^ 52)"
    by (simp add: is_double_def ev)
  have e: "exact_shoelace [pt 1 1, pt 0 (2 ^ 52), pt (- 1) (- 1)] = 2 ^ 53"
    by (simp add: exact_shoelace_def next_vertex_def lessThan_atLeast0
        flip: interv_sum_list_conv_sum_set_nat; simp add: upt_3 pt_def val_def)
  have a: "Polygon_area [pt 1 1, pt 0 (2 ^ 52), pt (- 1) (- 1)] = Fin (2 ^ 52)"
    by (simp add: Polygon_area_def Let_def upt_3 ev)
  have b: "Polygon_area (rev [pt 1 1, pt 0 (2 ^ 52), pt (- 1) (- 1)]) = Fin (2 ^ 52 - 1 / 2)"
    by (simp add: Polygon_area_def Let_def upt_3 ev)
  show ?thesis
    unfolding a b using d e by simp
qed

text \<open>The square of \<^verbatim>\<open>Polygon.regular\<close>, and its area.\<close>

lemma square_angle_step: "(dbl 2 * Math_PI) / Fin 4 = Fin (884279719003555 / 2 ^ 49)"
  by (simp add: Math_PI_def dbl_ops round_dbl_scaled[of _ 49])

lemma regular_square:
  assumes "agrees Math_cos cos_table" "agrees Math_sin sin_table"
  shows "Polygon_regular Math_cos Math_sin (pt 0 0) (Fin 1) (Fin 4)
     = Some (Inr [pt 1 0, pt (4967757600021511 / 2 ^ 106) 1, pt (- 1) (4967757600021511 / 2 ^ 105),
                  pt (- 3725818200016133 / 2 ^ 104) (- 1), pt 1 0])"
proof -
  note ev = pt_def dbl_ops round_dbl_int round_dbl_scaled[of _ 49] round_dbl_scaled[of _ 104]
    round_dbl_scaled[of _ 105] round_dbl_scaled[of _ 106]
  have t: "Math_cos (Fin 0) = Fin 1" "Math_sin (Fin 0) = Fin 0"
    "Math_cos (Fin (884279719003555 / 2 ^ 49)) = Fin (4967757600021511 / 2 ^ 106)"
    "Math_sin (Fin (884279719003555 / 2 ^ 49)) = Fin 1"
    "Math_cos (Fin (884279719003555 / 2 ^ 48)) = Fin (- 1)"
    "Math_sin (Fin (884279719003555 / 2 ^ 48)) = Fin (4967757600021511 / 2 ^ 105)"
    "Math_cos (Fin (2652839157010665 / 2 ^ 49)) = Fin (- 3725818200016133 / 2 ^ 104)"
    "Math_sin (Fin (2652839157010665 / 2 ^ 49)) = Fin (- 1)"
    using assms by (simp_all add: agrees_def cos_table_def sin_table_def square_angles_def)
  have l: "regular_loop Math_cos Math_sin (pt 0 0) (Fin 1) (Fin 4)
        (Fin (884279719003555 / 2 ^ 49)) 0 []
     = Some [pt 1 0, pt (4967757600021511 / 2 ^ 106) 1, pt (- 1) (4967757600021511 / 2 ^ 105),
             pt (- 3725818200016133 / 2 ^ 104) (- 1)]"
    using t by (simp add: regular_loop.simps ev)
  have c: "Polygon_close [pt 1 0, pt (4967757600021511 / 2 ^ 106) 1,
        pt (- 1) (4967757600021511 / 2 ^ 105), pt (- 3725818200016133 / 2 ^ 104) (- 1)]
     = [pt 1 0, pt (4967757600021511 / 2 ^ 106) 1, pt (- 1) (4967757600021511 / 2 ^ 105),
        pt (- 3725818200016133 / 2 ^ 104) (- 1), pt 1 0]"
    by (simp add: Polygon_close_def Polygon_isClosed_def Point_equals_def eps10_value
        pt_def dbl_ops round_dbl_binade[of 0] pow2_def round_even_def)
  show ?thesis
    unfolding Polygon_regular_def Let_def square_angle_step l
    using c by (simp add: dbl_ops)
qed

lemma square_area:
  "Polygon_area [pt 1 0, pt (4967757600021511 / 2 ^ 106) 1, pt (- 1) (4967757600021511 / 2 ^ 105),
                 pt (- 3725818200016133 / 2 ^ 104) (- 1), pt 1 0] = Fin 2"
  by (simp add: Polygon_area_def Let_def upt_5 pt_def dbl_ops round_dbl_int
      round_dbl_binade[of "- 107"] round_dbl_binade[of "- 106"] round_dbl_binade[of 0]
      round_dbl_binade[of 1] pow2_def round_even_def)

text \<open>
  Claim C7, amended. \<^verbatim>\<open>area()\<close> returns \<open>0\<close> below 3 vertices; from 3 vertices on it
  returns half the magnitude of the shoelace sum as the code accumulates it in double
  arithmetic, in the order of the vertices, which need not be the same for the two
  windings. On a polygon of at most \<open>2 ^ 12\<close> vertices whose coordinates are integers of
  magnitude at most \<open>2 ^ 20\<close> no operation rounds: \<^verbatim>\<open>area()\<close> is half the magnitude of
  the shoelace sum, the same for both windings. For every \<^verbatim>\<open>Math.cos\<close> and \<^verbatim>\<open>Math.sin\<close> that return the tabulated values at
  the four multiples of \<^verbatim>\<open>Math.PI / 2\<close>, \<^verbatim>\<open>Polygon.regular\<close> with center \<open>(0, 0)\<close>, radius
  \<open>1\<close> and \<open>4\<close> sides returns, and returns a polygon of area exactly \<open>2\<close>.
\<close>

theorem Polygon_area_spec:
  "(length vs < 3 \<longrightarrow> Polygon_area vs = 0) \<and>
   (3 \<le> length vs \<longrightarrow> Polygon_area vs = \<bar>shoelace vs\<bar> / dbl 2) \<and>
   (list_all (int_point (2 ^ 20)) vs \<and> 3 \<le> length vs \<and> length vs \<le> 2 ^ 12 \<longrightarrow>
      Polygon_area vs = Fin (\<bar>exact_shoelace vs\<bar> / 2) \<and>
      Polygon_area (rev vs) = Polygon_area vs) \<and>
   (agrees Math_cos cos_table \<and> agrees Math_sin sin_table \<longrightarrow>
      (\<exists>square. Polygon_regular Math_cos Math_sin (pt 0 0) (Fin 1) (Fin 4) = Some (Inr square) \<and>
                Polygon_area square = Fin 2))"
proof -
  have a: "length vs < 3 \<longrightarrow> Polygon_area vs = 0"
    by (simp add: Polygon_area_def)
  have b: "3 \<le> length vs \<longrightarrow> Polygon_area vs = \<bar>shoelace vs\<bar> / dbl 2"
    by (simp add: Polygon_area_shoelace)
  have c: "Polygon_area vs = Fin (\<bar>exact_shoelace vs\<bar> / 2) \<and>
      Polygon_area (rev vs) = Polygon_area vs"
    if "list_all (int_point (2 ^ 20)) vs \<and> 3 \<le> length vs \<and> length vs \<le> 2 ^ 12"
    using that integer_area[of vs] integer_area[of "rev vs"]
    by (simp add: exact_shoelace_rev)
  have d: "\<exists>square. Polygon_regular Math_cos Math_sin (pt 0 0) (Fin 1) (Fin 4) = Some (Inr square) \<and>
                Polygon_area square = Fin 2"
    if "agrees Math_cos cos_table \<and> agrees Math_sin sin_table"
    using that regular_square[of Math_cos Math_sin] square_area by simp
  show ?thesis
    using a b c d by blast
qed

theorem Polygon_area_spec_witness:
  "Polygon_area [pt 0 0, pt 1 1] = 0 \<and>
   shoelace [pt 0 0, pt 4 0, pt 0 3] = Fin 12 \<and>
   Polygon_area [pt 0 0, pt 4 0, pt 0 3] = Fin 6 \<and>
   list_all (int_point (2 ^ 20)) [pt 0 0, pt 4 0, pt 0 3] \<and>
   exact_shoelace [pt 0 0, pt 4 0, pt 0 3] = 12 \<and>
   Polygon_area (rev [pt 0 0, pt 4 0, pt 0 3]) = Fin 6 \<and>
   agrees (lookup cos_table) cos_table \<and> agrees (lookup sin_table) sin_table \<and>
   (\<exists>square. Polygon_regular (lookup cos_table) (lookup sin_table) (pt 0 0) (Fin 1) (Fin 4)
                = Some (Inr square) \<and>
             length square = 5 \<and> Polygon_area square = Fin 2)"
proof -
  note ev = pt_def dbl_ops round_dbl_int
  have s: "shoelace [pt 0 0, pt 4 0, pt 0 3] = Fin 12"
    by (simp add: shoelace_def next_vertex_def ev)
  have t: "agrees (lookup cos_table) cos_table" "agrees (lookup sin_table) sin_table"
    by (simp_all add: agrees_def lookup_def cos_table_def sin_table_def square_angles_def)
  have l: "\<exists>square. Polygon_regular (lookup cos_table) (lookup sin_table) (pt 0 0) (Fin 1) (Fin 4)
                = Some (Inr square) \<and> length square = 5 \<and> Polygon_area square = Fin 2"
    using Polygon_area_spec[of "[]" "lookup cos_table" "lookup sin_table"] t
      regular_square[OF t]
    by auto
  have ip: "list_all (int_point (2 ^ 20)) [pt 0 0, pt 4 0, pt 0 3]"
    using int_within_numeral[of 0 "2 ^ 20"] int_within_numeral[of 4 "2 ^ 20"]
      int_within_numeral[of 3 "2 ^ 20"]
    by (simp add: int_point_def pt_def)
  have n: "3 \<le> length [pt 0 0, pt 4 0, pt 0 3]" "length [pt 0 0, pt 4 0, pt 0 3] \<le> 2 ^ 12"
    by simp_all
  have x: "Polygon_area [pt 0 0, pt 4 0, pt 0 3] = Fin (\<bar>exact_shoelace [pt 0 0, pt 4 0, pt 0 3]\<bar> / 2)"
    "Polygon_area (rev [pt 0 0, pt 4 0, pt 0 3]) = Polygon_area [pt 0 0, pt 4 0, pt 0 3]"
    "Polygon_area [pt 0 0, pt 4 0, pt 0 3] = \<bar>shoelace [pt 0 0, pt 4 0, pt 0 3]\<bar> / dbl 2"
    using Polygon_area_spec[of "[pt 0 0, pt 4 0, pt 0 3]"] ip n by blast+
  have a6: "Polygon_area [pt 0 0, pt 4 0, pt 0 3] = Fin 6"
    unfolding x(3) s by (simp add: ev)
  have es: "exact_shoelace [pt 0 0, pt 4 0, pt 0 3] = 12"
    by (simp add: exact_shoelace_def next_vertex_def lessThan_atLeast0
        flip: interv_sum_list_conv_sum_set_nat; simp add: upt_3 pt_def val_def)
  have z: "Polygon_area [pt 0 0, pt 1 1] = 0"
    using Polygon_area_spec[of "[pt 0 0, pt 1 1]"] by simp
  show ?thesis
    using z s a6 ip es x(2) t l by simp
qed

subsection \<open>Polygon.centroid\<close>

lemma rounded_sum_cong:
  "(\<And>i. i < k \<Longrightarrow> f i = g i) \<Longrightarrow> rounded_sum f k = rounded_sum g k"
  by (induction k) simp_all

lemma rounded_sum_snoc:
  "rounded_sum (\<lambda>i. f ((xs @ [x]) ! i)) (length xs) = rounded_sum (\<lambda>i. f (xs ! i)) (length xs)"
  by (rule rounded_sum_cong) (simp add: nth_append)

lemma fold_coordinate_sums:
  "fold (\<lambda>v (sumX, sumY). (sumX + px v, sumY + py v)) vs (0, 0)
     = (rounded_sum (\<lambda>i. px (vs ! i)) (length vs), rounded_sum (\<lambda>i. py (vs ! i)) (length vs))"
  by (induction vs rule: rev_induct) (simp_all add: rounded_sum_snoc)

lemma fold_Point_add:
  "fold (\<lambda>v acc. Point_add acc v) vs Point_zero
     = Point (rounded_sum (\<lambda>i. px (vs ! i)) (length vs))
             (rounded_sum (\<lambda>i. py (vs ! i)) (length vs))"
  by (induction vs rule: rev_induct)
    (simp_all add: rounded_sum_snoc Point_add_def Point_zero_def)

lemma centroid_fold:
  "fold (\<lambda>i (cx, cy, signedArea).
           let p1 = vs ! i;
               p2 = vs ! ((i + 1) mod length vs);
               crossProductTerm = px p1 * py p2 - px p2 * py p1
           in (cx + (px p1 + px p2) * crossProductTerm,
               cy + (py p1 + py p2) * crossProductTerm,
               signedArea + crossProductTerm)) [0..<k] (0, 0, 0)
     = (rounded_sum (\<lambda>i. (px (vs ! i) + px (next_vertex vs i)) * cross_term vs i) k,
        rounded_sum (\<lambda>i. (py (vs ! i) + py (next_vertex vs i)) * cross_term vs i) k,
        rounded_sum (cross_term vs) k)"
  by (induction k) (simp_all add: Let_def next_vertex_def cross_term_def)

lemma Polygon_centroid_unfold:
  "Polygon_centroid vs =
     (if vs = [] then Inr Point_zero
      else if length vs < 3 \<or> \<bar>signed_sum vs\<bar> < eps10
      then Inr (Point (rounded_sum (\<lambda>i. px (vs ! i)) (length vs) / number (length vs))
                      (rounded_sum (\<lambda>i. py (vs ! i)) (length vs) / number (length vs)))
      else Inr (Point (weighted_x vs / (dbl 6 * (signed_sum vs / dbl 2)))
                      (weighted_y vs / (dbl 6 * (signed_sum vs / dbl 2)))))"
proof (cases "length vs < 3")
  case True
  then show ?thesis
    by (simp add: Polygon_centroid_def fold_coordinate_sums)
next
  case False
  then have ne: "vs \<noteq> []" by auto
  then have "number (length vs) \<noteq> 0"
    by (simp add: number_def zero_double_def)
  then have d: "Point_divide_static p (number (length vs))
      = Inr (Point (px p / number (length vs)) (py p / number (length vs)))" for p
    by (simp add: Point_divide_static_def)
  show ?thesis
    unfolding Polygon_centroid_def Let_def centroid_fold[of vs "length vs", unfolded Let_def]
    using False ne
    by (simp add: fold_Point_add d signed_sum_def weighted_x_def weighted_y_def)
qed

text \<open>On integer coordinates the code computes the signed sum without rounding.\<close>

lemma rounded_sum_exact:
  assumes "\<And>j. j < n \<Longrightarrow> int_within b (f j)" "int n * b \<le> 2 ^ 53" "0 \<le> b"
  shows "i \<le> n \<Longrightarrow>
     int_within (int i * b) (rounded_sum f i) \<and> val (rounded_sum f i) = (\<Sum>j<i. val (f j))"
proof (induction i)
  case 0
  show ?case by (simp add: int_within_def zero_double_def val_def)
next
  case (Suc i)
  then have i: "i < n" by simp
  have acc: "int_within (int i * b) (rounded_sum f i)"
    and av: "val (rounded_sum f i) = (\<Sum>j<i. val (f j))"
    using Suc by simp_all
  have "int (Suc i) \<le> int n" using i by simp
  then have "int (Suc i) * b \<le> int n * b"
    using assms(3) by (rule mult_right_mono)
  then have b: "int i * b + b \<le> 2 ^ 53"
    using assms(2) by (simp add: algebra_simps)
  have "int_within (int i * b + b) (rounded_sum f i + f i)"
    "val (rounded_sum f i + f i) = val (rounded_sum f i) + val (f i)"
    using int_add[OF acc assms(1)[OF i] b] by simp_all
  moreover have "int i * b + b = int (Suc i) * b" by (simp add: algebra_simps)
  ultimately show ?case by (simp add: av)
qed

lemma cross_term_exact:
  assumes "list_all (int_point (2 ^ 20)) vs" "i < length vs"
  shows "int_within (2 ^ 41) (cross_term vs i)"
    "val (cross_term vs i)
      = val (px (vs ! i)) * val (py (next_vertex vs i))
        - val (px (next_vertex vs i)) * val (py (vs ! i))"
proof -
  have "0 < length vs" using assms(2) by auto
  then have j: "(i + 1) mod length vs < length vs" by (rule mod_less_divisor)
  have p: "int_point (2 ^ 20) (vs ! i)" "int_point (2 ^ 20) (next_vertex vs i)"
    using assms j by (simp_all add: list_all_length next_vertex_def)
  have m1: "int_within (2 ^ 40) (px (vs ! i) * py (next_vertex vs i))"
    "val (px (vs ! i) * py (next_vertex vs i)) = val (px (vs ! i)) * val (py (next_vertex vs i))"
    using int_mul[of "2 ^ 20" "px (vs ! i)" "2 ^ 20" "py (next_vertex vs i)"] p
    by (simp_all add: int_point_def)
  have m2: "int_within (2 ^ 40) (px (next_vertex vs i) * py (vs ! i))"
    "val (px (next_vertex vs i) * py (vs ! i)) = val (px (next_vertex vs i)) * val (py (vs ! i))"
    using int_mul[of "2 ^ 20" "px (next_vertex vs i)" "2 ^ 20" "py (vs ! i)"] p
    by (simp_all add: int_point_def)
  show "int_within (2 ^ 41) (cross_term vs i)"
    using int_sub(1)[OF m1(1) m2(1)] by (simp add: cross_term_def)
  show "val (cross_term vs i)
      = val (px (vs ! i)) * val (py (next_vertex vs i))
        - val (px (next_vertex vs i)) * val (py (vs ! i))"
    using int_sub(2)[OF m1(1) m2(1)] by (simp add: cross_term_def m1(2) m2(2))
qed

lemma signed_sum_exact:
  assumes "list_all (int_point (2 ^ 20)) vs" "length vs \<le> 2 ^ 12"
  shows "int_within (2 ^ 53) (signed_sum vs)" "val (signed_sum vs) = exact_shoelace vs"
proof -
  have "int (length vs) \<le> int (2 ^ 12)" using assms(2) by (rule of_nat_mono)
  then have "int (length vs) * 2 ^ 41 \<le> 2 ^ 12 * 2 ^ 41"
    by (intro mult_right_mono) simp_all
  then have b: "int (length vs) * 2 ^ 41 \<le> 2 ^ 53" by simp
  have r: "int_within (int (length vs) * 2 ^ 41) (signed_sum vs) \<and>
      val (signed_sum vs) = (\<Sum>j<length vs. val (cross_term vs j))"
    unfolding signed_sum_def
    using rounded_sum_exact[of "length vs" "2 ^ 41" "cross_term vs" "length vs"]
      cross_term_exact(1)[OF assms(1)] b
    by simp
  show "int_within (2 ^ 53) (signed_sum vs)"
    using r b int_within_mono by blast
  show "val (signed_sum vs) = exact_shoelace vs"
    using r cross_term_exact(2)[OF assms(1)] by (simp add: exact_shoelace_def)
qed

text \<open>
  Claim C8, as stated, fails on the polygon with no vertex: it has fewer than 3 vertices,
  no arithmetic mean of its vertices exists, and \<^verbatim>\<open>centroid()\<close> returns the origin.
\<close>

theorem Polygon_centroid_empty_counterexample:
  "length ([] :: double point list) < 3 \<and>
   \<not> (\<exists>m. mean_point [] = Some m \<and> Polygon_centroid [] = Inr m) \<and>
   Polygon_centroid [] = Inr (pt 0 0)"
  by (simp add: mean_point_def Polygon_centroid_def Point_zero_def pt_def zero_double_def)

text \<open>
  Claim C8, amended. \<^verbatim>\<open>centroid()\<close> never throws. On the polygon with no vertex it
  returns the origin. With every sum as the code accumulates it in double arithmetic: on
  a non-empty polygon with fewer than 3 vertices, and on a polygon with at least 3
  vertices whose computed signed sum has magnitude below 1e-10, it returns the mean of
  the vertices, the sum of each coordinate divided by the number of vertices. On every
  other polygon (one whose computed signed sum is NaN among them) it returns the point
  whose coordinates are the two weighted sums divided by 6 times the signed area, the
  signed area being half the signed sum. On a polygon of at most \<open>2 ^ 12\<close> vertices whose
  coordinates are integers of magnitude at most \<open>2 ^ 20\<close> the computed signed sum is the
  shoelace sum, so a polygon of zero area, as one with collinear vertices, gets the mean.
\<close>

theorem Polygon_centroid_spec:
  "(vs = [] \<longrightarrow> Polygon_centroid vs = Inr Point_zero) \<and>
   (vs \<noteq> [] \<and> (length vs < 3 \<or> \<bar>signed_sum vs\<bar> < eps10) \<longrightarrow>
      (\<exists>m. mean_point vs = Some m \<and> Polygon_centroid vs = Inr m)) \<and>
   (3 \<le> length vs \<and> \<not> \<bar>signed_sum vs\<bar> < eps10 \<longrightarrow>
      Polygon_centroid vs =
        Inr (Point (weighted_x vs / (dbl 6 * (signed_sum vs / dbl 2)))
                   (weighted_y vs / (dbl 6 * (signed_sum vs / dbl 2))))) \<and>
   (list_all (int_point (2 ^ 20)) vs \<and> 3 \<le> length vs \<and> length vs \<le> 2 ^ 12 \<longrightarrow>
      signed_sum vs = Fin (exact_shoelace vs) \<and>
      (exact_shoelace vs = 0 \<longrightarrow> (\<exists>m. mean_point vs = Some m \<and> Polygon_centroid vs = Inr m)))"
proof -
  have a: "vs = [] \<longrightarrow> Polygon_centroid vs = Inr Point_zero"
    by (simp add: Polygon_centroid_unfold)
  have b: "vs \<noteq> [] \<and> (length vs < 3 \<or> \<bar>signed_sum vs\<bar> < eps10) \<longrightarrow>
      (\<exists>m. mean_point vs = Some m \<and> Polygon_centroid vs = Inr m)"
    by (auto simp: Polygon_centroid_unfold mean_point_def)
  have c: "3 \<le> length vs \<and> \<not> \<bar>signed_sum vs\<bar> < eps10 \<longrightarrow>
      Polygon_centroid vs =
        Inr (Point (weighted_x vs / (dbl 6 * (signed_sum vs / dbl 2)))
                   (weighted_y vs / (dbl 6 * (signed_sum vs / dbl 2))))"
    by (auto simp: Polygon_centroid_unfold)
  have d: "signed_sum vs = Fin (exact_shoelace vs) \<and>
      (exact_shoelace vs = 0 \<longrightarrow> (\<exists>m. mean_point vs = Some m \<and> Polygon_centroid vs = Inr m))"
    if h: "list_all (int_point (2 ^ 20)) vs \<and> 3 \<le> length vs \<and> length vs \<le> 2 ^ 12"
  proof -
    have w: "int_within (2 ^ 53) (signed_sum vs)" and v: "val (signed_sum vs) = exact_shoelace vs"
      using signed_sum_exact[of vs] h by simp_all
    have ne: "vs \<noteq> []" using h by auto
    have "signed_sum vs = Fin (exact_shoelace vs)"
      using int_within_val[OF w] v by simp
    moreover have "\<exists>m. mean_point vs = Some m \<and> Polygon_centroid vs = Inr m"
      if "exact_shoelace vs = 0"
      using int_small_zero[OF w] v that b ne by simp
    ultimately show ?thesis by simp
  qed
  show ?thesis
    using a b c d by blast
qed

theorem Polygon_centroid_spec_witness:
  "Polygon_centroid [pt 0 0, pt 2 0] = Inr (pt 1 0) \<and>
   signed_sum [pt 0 0, pt 1 0, pt 2 0] = Fin 0 \<and>
   Polygon_centroid [pt 0 0, pt 1 0, pt 2 0] = Inr (pt 1 0) \<and>
   signed_sum [pt 0 0, pt 3 0, pt 0 3] = Fin 9 \<and>
   weighted_x [pt 0 0, pt 3 0, pt 0 3] = Fin 27 \<and>
   weighted_y [pt 0 0, pt 3 0, pt 0 3] = Fin 27 \<and>
   Polygon_centroid [pt 0 0, pt 3 0, pt 0 3] = Inr (pt 1 1) \<and>
   list_all (int_point (2 ^ 20)) [pt 0 0, pt 1 0, pt 2 0] \<and>
   exact_shoelace [pt 0 0, pt 1 0, pt 2 0] = 0 \<and>
   mean_point [pt 0 0, pt 1 0, pt 2 0] = Some (pt 1 0)"
proof -
  have ip: "list_all (int_point (2 ^ 20)) [pt 0 0, pt 1 0, pt 2 0]"
    using int_within_numeral[of 0 "2 ^ 20"] int_within_numeral[of 1 "2 ^ 20"]
      int_within_numeral[of 2 "2 ^ 20"]
    by (simp add: int_point_def pt_def)
  have es: "exact_shoelace [pt 0 0, pt 1 0, pt 2 0] = 0"
    by (simp add: exact_shoelace_def next_vertex_def lessThan_atLeast0
        flip: interv_sum_list_conv_sum_set_nat; simp add: upt_3 pt_def val_def)
  note ev = pt_def dbl_ops round_dbl_int round_dbl_scaled[of _ 1] eps10_value
  have s1: "signed_sum [pt 0 0, pt 1 0, pt 2 0] = Fin 0"
    by (simp add: signed_sum_def cross_term_def next_vertex_def ev)
  have s2: "signed_sum [pt 0 0, pt 3 0, pt 0 3] = Fin 9"
    by (simp add: signed_sum_def cross_term_def next_vertex_def ev)
  have w: "weighted_x [pt 0 0, pt 3 0, pt 0 3] = Fin 27"
    "weighted_y [pt 0 0, pt 3 0, pt 0 3] = Fin 27"
    by (simp_all add: weighted_x_def weighted_y_def cross_term_def next_vertex_def
        ev)
  have m: "mean_point [pt 0 0, pt 2 0] = Some (pt 1 0)"
    "mean_point [pt 0 0, pt 1 0, pt 2 0] = Some (pt 1 0)"
    by (simp_all add: mean_point_def ev)
  have a: "Polygon_centroid [pt 0 0, pt 2 0] = Inr (pt 1 0)"
    using Polygon_centroid_spec[of "[pt 0 0, pt 2 0]"] m(1) by auto
  have "\<exists>m. mean_point [pt 0 0, pt 1 0, pt 2 0] = Some m \<and>
      Polygon_centroid [pt 0 0, pt 1 0, pt 2 0] = Inr m"
    using Polygon_centroid_spec[of "[pt 0 0, pt 1 0, pt 2 0]"] ip es by simp
  then have b: "Polygon_centroid [pt 0 0, pt 1 0, pt 2 0] = Inr (pt 1 0)"
    using m(2) by auto
  have c: "Polygon_centroid [pt 0 0, pt 3 0, pt 0 3] = Inr (pt 1 1)"
    using Polygon_centroid_spec[of "[pt 0 0, pt 3 0, pt 0 3]"] s2 w
    by (simp add: ev)
  show ?thesis using a b c s1 s2 w ip es m(2) by simp
qed

subsection \<open>Polygon.intersects\<close>

text \<open>
  Claim C4, as stated, fails: the triangle \<open>P\<close> contains the second vertex of the
  two-vertex polygon \<open>Q\<close>, yet \<^verbatim>\<open>P.intersects(Q)\<close> is false. Only the first vertex of each
  polygon is tested for containment, and here every pair of edges has a determinant
  below 1e-10. The coordinates are multiples of \<open>1 / 2 ^ 20\<close>, and no operation rounds.
\<close>

theorem Polygon_intersects_counterexample:
  "Polygon_contains [pt 0 0, pt (4 / 2 ^ 20) 0, pt 0 (4 / 2 ^ 20)]
       ([pt (- 4 / 2 ^ 20) (1 / 2 ^ 20), pt (1 / 2 ^ 20) (1 / 2 ^ 20)] ! 1) \<and>
   \<not> Polygon_intersects [pt 0 0, pt (4 / 2 ^ 20) 0, pt 0 (4 / 2 ^ 20)]
       [pt (- 4 / 2 ^ 20) (1 / 2 ^ 20), pt (1 / 2 ^ 20) (1 / 2 ^ 20)]"
proof
  note ev = pt_def dbl_ops eps10_value round_dbl_scaled[of _ 40]
  show "Polygon_contains [pt 0 0, pt (4 / 2 ^ 20) 0, pt 0 (4 / 2 ^ 20)]
       ([pt (- 4 / 2 ^ 20) (1 / 2 ^ 20), pt (1 / 2 ^ 20) (1 / 2 ^ 20)] ! 1)"
    by (simp add: Polygon_contains_def Let_def upt_3 ev)
  have e1: "Polygon_getEdges [pt 0 0, pt (4 / 2 ^ 20) 0, pt 0 (4 / 2 ^ 20)]
      = [Line (pt 0 0) (pt (4 / 2 ^ 20) 0),
         Line (pt (4 / 2 ^ 20) 0) (pt 0 (4 / 2 ^ 20)),
         Line (pt 0 (4 / 2 ^ 20)) (pt 0 0)]"
    by (simp add: Polygon_getEdges_def Polygon_isClosed_def Point_equals_def Let_def upt_3 ev)
  have e2: "Polygon_getEdges [pt (- 4 / 2 ^ 20) (1 / 2 ^ 20), pt (1 / 2 ^ 20) (1 / 2 ^ 20)]
      = [Line (pt (- 4 / 2 ^ 20) (1 / 2 ^ 20)) (pt (1 / 2 ^ 20) (1 / 2 ^ 20)),
         Line (pt (1 / 2 ^ 20) (1 / 2 ^ 20)) (pt (- 4 / 2 ^ 20) (1 / 2 ^ 20))]"
    by (simp add: Polygon_getEdges_def Polygon_isClosed_def Let_def upt_2)
  have c1: "\<not> Polygon_contains [pt (- 4 / 2 ^ 20) (1 / 2 ^ 20), pt (1 / 2 ^ 20) (1 / 2 ^ 20)] p" for p
    by (simp add: Polygon_contains_def)
  have c2: "\<not> Polygon_contains [pt 0 0, pt (4 / 2 ^ 20) 0, pt 0 (4 / 2 ^ 20)]
       (pt (- 4 / 2 ^ 20) (1 / 2 ^ 20))"
    by (simp add: Polygon_contains_def Let_def upt_3 ev)
  have i: "\<not> list_ex (\<lambda>edge1. list_ex (\<lambda>edge2. Line_intersects edge1 edge2 \<noteq> None)
        [Line (pt (- 4 / 2 ^ 20) (1 / 2 ^ 20)) (pt (1 / 2 ^ 20) (1 / 2 ^ 20)),
         Line (pt (1 / 2 ^ 20) (1 / 2 ^ 20)) (pt (- 4 / 2 ^ 20) (1 / 2 ^ 20))])
        [Line (pt 0 0) (pt (4 / 2 ^ 20) 0),
         Line (pt (4 / 2 ^ 20) 0) (pt 0 (4 / 2 ^ 20)),
         Line (pt 0 (4 / 2 ^ 20)) (pt 0 0)]"
    by (simp add: Line_intersects_def Let_def ev)
  show "\<not> Polygon_intersects [pt 0 0, pt (4 / 2 ^ 20) 0, pt 0 (4 / 2 ^ 20)]
       [pt (- 4 / 2 ^ 20) (1 / 2 ^ 20), pt (1 / 2 ^ 20) (1 / 2 ^ 20)]"
    unfolding Polygon_intersects_def Let_def e1 e2 using i c1 c2 by simp
qed

text \<open>
  Claim C4, amended. For non-empty polygons \<open>P\<close> and \<open>Q\<close>, \<^verbatim>\<open>P.intersects(Q)\<close> is true
  exactly when \<^verbatim>\<open>Line.intersects\<close> is not \<^verbatim>\<open>null\<close> for some edge of \<open>P\<close> and some edge of
  \<open>Q\<close>, or \<open>Q\<close> contains the first vertex of \<open>P\<close>, or \<open>P\<close> contains the first vertex of \<open>Q\<close>,
  containment being the even-odd test.
\<close>

theorem Polygon_intersects_spec:
  "P \<noteq> [] \<and> Q \<noteq> [] \<longrightarrow>
     (Polygon_intersects P Q \<longleftrightarrow>
        (\<exists>e1 \<in> set (Polygon_getEdges P). \<exists>e2 \<in> set (Polygon_getEdges Q).
            Line_intersects e1 e2 \<noteq> None) \<or>
        Polygon_contains Q (P ! 0) \<or> Polygon_contains P (Q ! 0))"
  by (auto simp: Polygon_intersects_def Let_def list_ex_iff)

theorem Polygon_intersects_spec_witness:
  "Polygon_intersects [pt 1 1, pt 2 1, pt 1 2] [pt 0 0, pt 4 0, pt 4 4, pt 0 4]"
proof -
  have c: "Polygon_contains [pt 0 0, pt 4 0, pt 4 4, pt 0 4] ([pt 1 1, pt 2 1, pt 1 2] ! 0)"
    by (simp add: Polygon_contains_def Let_def upt_4 pt_def dbl_ops round_dbl_int)
  show ?thesis
    using Polygon_intersects_spec[of "[pt 1 1, pt 2 1, pt 1 2]" "[pt 0 0, pt 4 0, pt 4 4, pt 0 4]"] c
    by blast
qed

subsection \<open>Polygon.convexHull\<close>

text \<open>
  The sign of the comparator: the difference of two finite doubles is rounded to a number
  of its own sign, since it is zero or at least the smallest positive double.
\<close>

lemma is_double_rnd: "is_double x \<Longrightarrow> rnd x = x"
  unfolding is_double_def round_dbl_def Let_def by (auto split: if_splits)

lemma double_grid:
  assumes "rnd x = x"
  shows "\<exists>n::int. x = of_int n * pow2 (- 1074)"
proof (cases "x = 0")
  case False
  define e where "e = expo x"
  have ge: "- 1022 \<le> e" by (simp add: e_def expo_def)
  have x: "x = of_int (round_even (x / pow2 (e - 52))) * pow2 (e - 52)"
    using assms False by (simp add: rnd_def e_def)
  have p: "pow2 (e - 52) = pow2 (e + 1022) * pow2 (- 1074)"
    using pow2_add[of "e + 1022" "- 1074"] by simp
  obtain j :: int where j: "pow2 (e + 1022) = of_int j"
    using pow2_Ints[of "e + 1022"] ge by auto
  have "x = of_int (round_even (x / pow2 (e - 52)) * j) * pow2 (- 1074)"
    using x unfolding p j by simp
  then show ?thesis ..
qed (auto intro: exI[of _ 0])

lemma round_even_pos: "1 \<le> q \<Longrightarrow> 1 \<le> round_even q"
  using round_even_close[of q] by linarith

lemma round_even_nonpos: "q \<le> 0 \<Longrightarrow> round_even q \<le> 0"
  using round_even_close[of q] by linarith

lemma rnd_pos:
  assumes "pow2 (- 1074) \<le> y"
  shows "0 < rnd y"
proof -
  have y: "0 < y" using assms pow2_pos[of "- 1074"] by linarith
  define e where "e = expo y"
  define u where "u = pow2 (e - 52)"
  have u: "0 < u" by (simp add: u_def pow2_pos)
  have "u \<le> y"
  proof (cases "e = - 1022")
    case True
    then show ?thesis using assms by (simp add: u_def)
  next
    case False
    then have "e = \<lfloor>log 2 \<bar>y\<bar>\<rfloor>"
      by (simp add: e_def expo_def max_def split: if_splits)
    then have "pow2 e \<le> y"
      using binade_bounds(1)[of y] y by simp
    moreover have "u \<le> pow2 e"
      by (simp add: u_def pow2_le)
    ultimately show ?thesis by linarith
  qed
  then have "1 \<le> y / u" using u by (simp add: le_divide_eq)
  then have "1 \<le> round_even (y / u)" by (rule round_even_pos)
  then have "0 < of_int (round_even (y / u)) * u" using u by simp
  then show ?thesis using y by (simp add: rnd_def e_def u_def)
qed

lemma rnd_nonpos:
  assumes "y \<le> 0"
  shows "rnd y \<le> 0"
proof -
  have "y / pow2 (expo y - 52) \<le> 0"
    using assms pow2_pos[of "expo y - 52"] by (simp add: divide_le_0_iff)
  then have "round_even (y / pow2 (expo y - 52)) \<le> 0" by (rule round_even_nonpos)
  then have "of_int (round_even (y / pow2 (expo y - 52))) * pow2 (expo y - 52) \<le> 0"
    using pow2_pos[of "expo y - 52"] by (simp add: mult_le_0_iff)
  then show ?thesis by (simp add: rnd_def)
qed

lemma round_dbl_le_0: "round_dbl y \<le> 0 \<longleftrightarrow> rnd y \<le> 0"
proof -
  have "0 < overflow" by (simp add: overflow_def)
  then show ?thesis
    unfolding round_dbl_def Let_def
    by (auto simp: less_eq_double_def less_double_def zero_double_def)
qed

lemma difference_sign:
  assumes "is_double a" "is_double b"
  shows "Fin a - Fin b \<le> 0 \<longleftrightarrow> a \<le> b"
proof -
  obtain m n :: int where m: "a = of_int m * pow2 (- 1074)" and n: "b = of_int n * pow2 (- 1074)"
    using double_grid[OF is_double_rnd[OF assms(1)]] double_grid[OF is_double_rnd[OF assms(2)]]
    by auto
  have d: "a - b = of_int (m - n) * pow2 (- 1074)"
    by (simp add: m n left_diff_distrib)
  have "rnd (a - b) \<le> 0 \<longleftrightarrow> a \<le> b"
  proof (cases "a \<le> b")
    case True
    then show ?thesis using rnd_nonpos[of "a - b"] by simp
  next
    case False
    then have "0 < of_int (m - n) * pow2 (- 1074)" using d by simp
    then have "0 < m - n"
      using pow2_pos[of "- 1074"] by (simp add: zero_less_mult_iff)
    then have "(1::real) \<le> of_int (m - n)" by linarith
    then have "1 * pow2 (- 1074) \<le> of_int (m - n) * pow2 (- 1074)"
      using pow2_pos[of "- 1074"] by (intro mult_right_mono) simp_all
    then have "pow2 (- 1074) \<le> a - b" using d by simp
    then show ?thesis using rnd_pos[of "a - b"] False by simp
  qed
  then show ?thesis
    by (simp add: minus_double_def uminus_double_def plus_double_def round_dbl_le_0)
qed

text \<open>The code against the words of the specification: the sort, the loops, the chains.\<close>

lemma compare_points_le:
  assumes "finite_point p" "finite_point q"
  shows "compare_points p q \<le> 0 \<longleftrightarrow> (val (px p), val (py p)) \<le> (val (px q), val (py q))"
proof -
  obtain a b c d where p: "p = Point (Fin a) (Fin b)" and q: "q = Point (Fin c) (Fin d)"
    and ds: "is_double a" "is_double b" "is_double c" "is_double d"
    using assms by (auto simp: finite_point_def)
  show ?thesis
    using difference_sign[OF ds(1) ds(3)] difference_sign[OF ds(2) ds(4)]
    by (auto simp: p q compare_points_def strict_eq_def val_def less_eq_prod_def)
qed

lemma insert_point_insort:
  "finite_point p \<Longrightarrow> \<forall>q \<in> set qs. finite_point q \<Longrightarrow>
   insert_point p qs = insort_key (\<lambda>p. (val (px p), val (py p))) p qs"
  by (induction qs) (simp_all add: compare_points_le)

lemma sort_points_lex_sorted:
  "\<forall>p \<in> set ps. finite_point p \<Longrightarrow> sort_points ps = lex_sorted ps"
proof (induction ps)
  case Nil
  show ?case by (simp add: sort_points_def lex_sorted_def)
next
  case (Cons p ps)
  have ih: "sort_points ps = sort_key (\<lambda>p. (val (px p), val (py p))) ps"
    using Cons by (simp add: lex_sorted_def)
  have "\<forall>q \<in> set (sort_points ps). finite_point q"
    unfolding ih using Cons.prems by simp
  then have "insert_point p (sort_points ps)
      = insort_key (\<lambda>p. (val (px p), val (py p))) p (sort_points ps)"
    using Cons.prems by (intro insert_point_insort) simp_all
  then show ?case
    unfolding ih by (simp add: sort_points_def lex_sorted_def sort_key_def ih[unfolded sort_points_def sort_key_def])
qed

lemma last_two:
  assumes "2 \<le> length xs"
  obtains ys a b where "xs = ys @ [a, b]"
proof -
  from assms obtain zs b where zs: "xs = zs @ [b]"
    by (cases xs rule: rev_cases) auto
  with assms obtain ys a where "zs = ys @ [a]"
    by (cases zs rule: rev_cases) auto
  with zs show ?thesis using that by simp
qed

lemma pop_while_chain_push:
  "rev (pop_while harr p @ [p]) = chain_push p (rev harr)"
proof (induction harr p rule: pop_while.induct)
  case (1 harr p)
  show ?case
  proof (cases "length harr \<ge> 2")
    case False
    then have "harr = [] \<or> (\<exists>a. harr = [a])"
      by (cases harr) (auto simp: Suc_le_eq)
    then show ?thesis
      by (subst pop_while.simps) auto
  next
    case True
    then obtain xs a b where harr: "harr = xs @ [a, b]"
      by (rule last_two)
    have i: "harr ! (length harr - 2) = a" "harr ! (length harr - 1) = b"
      "butlast harr = xs @ [a]"
      by (simp_all add: harr nth_append butlast_append)
    show ?thesis
    proof (cases "crossProduct a b p \<le> 0")
      case t: True
      have "rev (pop_while harr p @ [p]) = rev (pop_while (butlast harr) p @ [p])"
        using True t i by (subst pop_while.simps) simp
      also have "\<dots> = chain_push p (rev (butlast harr))"
        using "1.IH" True t i by simp
      also have "\<dots> = chain_push p (rev harr)"
        unfolding i(3) using t by (simp add: harr)
      finally show ?thesis .
    next
      case f: False
      have "pop_while harr p = harr"
        using f i by (subst pop_while.simps) simp
      then show ?thesis using f by (simp add: harr)
    qed
  qed
qed

lemma fold_pop_while_chain:
  "fold (\<lambda>p harr. pop_while harr p @ [p]) ps harr
     = rev (foldl (\<lambda>st p. chain_push p st) (rev harr) ps)"
proof (induction ps arbitrary: harr)
  case Nil
  show ?case by simp
next
  case (Cons p ps)
  show ?case
    using Cons.IH[of "pop_while harr p @ [p]"] pop_while_chain_push[of harr p]
    by simp
qed

lemma fold_index_rev:
  "fold (\<lambda>i acc. f (xs ! i) acc) (rev [0..<length xs]) a = fold f (rev xs) a"
proof -
  have "fold (\<lambda>i acc. f (xs ! i) acc) (rev [0..<length xs]) a
        = fold f (map (\<lambda>i. xs ! i) (rev [0..<length xs])) a"
    by (simp add: fold_map comp_def)
  also have "map (\<lambda>i. xs ! i) (rev [0..<length xs]) = rev xs"
    by (simp add: rev_map[symmetric] map_nth)
  finally show ?thesis .
qed

lemma Polygon_convexHull_chains:
  "Polygon_convexHull ps =
     (if length ps < 3 then ps
      else butlast (chain (sort_points ps)) @ butlast (chain (rev (sort_points ps))))"
proof -
  let ?s = "sort_points ps"
  have l: "fold (\<lambda>p lowerHull. pop_while lowerHull p @ [p]) ?s [] = chain ?s"
    by (simp add: fold_pop_while_chain chain_def)
  have "fold (\<lambda>i upperHull. let p = ?s ! i in pop_while upperHull p @ [p])
          (rev [0..<length ?s]) []
        = fold (\<lambda>p harr. pop_while harr p @ [p]) (rev ?s) []"
    using fold_index_rev[of "\<lambda>p harr. pop_while harr p @ [p]" ?s "[]"]
    by (simp add: Let_def)
  then have u: "fold (\<lambda>i upperHull. let p = ?s ! i in pop_while upperHull p @ [p])
          (rev [0..<length ?s]) [] = chain (rev ?s)"
    by (simp add: fold_pop_while_chain chain_def)
  show ?thesis
    unfolding Polygon_convexHull_def Let_def l u[unfolded Let_def]
    by simp
qed

text \<open>What every step of a chain keeps: the turns, and points of the input only.\<close>

lemma left_turns_tl: "left_turns (x # xs) \<Longrightarrow> left_turns xs"
  by (cases xs rule: left_turns.cases) auto

lemma left_turns_chain_push: "left_turns st \<Longrightarrow> left_turns (chain_push p st)"
proof (induction p st rule: chain_push.induct)
  case (1 p b a st)
  then show ?case using left_turns_tl[of b "a # st"] by auto
qed auto

lemma chain_push_set: "set (chain_push p st) \<subseteq> insert p (set st)"
  by (induction p st rule: chain_push.induct) auto

lemma foldl_chain_push:
  "left_turns st \<Longrightarrow>
   left_turns (foldl (\<lambda>st p. chain_push p st) st xs) \<and>
   set (foldl (\<lambda>st p. chain_push p st) st xs) \<subseteq> set st \<union> set xs"
proof (induction xs arbitrary: st)
  case Nil
  then show ?case by simp
next
  case (Cons x xs)
  show ?case
    using Cons.IH[OF left_turns_chain_push[OF Cons.prems, of x]] chain_push_set[of x st]
    by auto
qed

lemma chain_facts: "turns_kept (chain xs) \<and> set (chain xs) \<subseteq> set xs"
  using foldl_chain_push[of "[]" xs] by (simp add: chain_def turns_kept_def)

lemma butlast_subset: "set (butlast xs) \<subseteq> set xs"
  by (auto dest: in_set_butlastD)

lemma finite_point_pt:
  "finite_point (Point (Fin x) (Fin y)) \<longleftrightarrow> is_double x \<and> is_double y"
  by (auto simp: finite_point_def)

lemma hull_example:
  "Polygon_convexHull [pt 0 0, pt 1 1, pt 0 1, pt 1 0, pt (1 / 2) (1 / 2)]
     = [pt 0 0, pt 1 0, pt 1 1, pt 0 1]"
proof -
  note ev = pt_def dbl_ops round_dbl_int round_dbl_scaled[of _ 2]
  have s: "sort_points [pt 0 0, pt 1 1, pt 0 1, pt 1 0, pt (1 / 2) (1 / 2)]
     = [pt 0 0, pt 0 1, pt (1 / 2) (1 / 2), pt 1 0, pt 1 1]"
    by (simp add: sort_points_def compare_points_def strict_eq_def ev)
  have l: "chain [pt 0 0, pt 0 1, pt (1 / 2) (1 / 2), pt 1 0, pt 1 1]
     = [pt 0 0, pt 1 0, pt 1 1]"
    by (simp add: chain_def crossProduct_def ev)
  have u: "chain (rev [pt 0 0, pt 0 1, pt (1 / 2) (1 / 2), pt 1 0, pt 1 1])
     = [pt 1 1, pt 0 1, pt 0 0]"
    by (simp add: chain_def crossProduct_def ev)
  show ?thesis
    unfolding Polygon_convexHull_chains s l u by simp
qed

subsection \<open>The exact monotone chain is counter-clockwise\<close>

text \<open>
  Directions in the half plane to the right (or straight up) are ordered by the sign of
  their cross product, transitively. So in a chain of lexicographically increasing
  points whose successive triples turn left, any two successive points and a later one
  turn left.
\<close>

lemma halfplane_trans:
  fixes d1 d2 e1 e2 f1 f2 :: real
  assumes d: "0 < d1 \<or> (d1 = 0 \<and> 0 < d2)"
    and e: "0 < e1 \<or> (e1 = 0 \<and> 0 < e2)"
    and f: "0 < f1 \<or> (f1 = 0 \<and> 0 < f2)"
    and de: "0 < d1 * e2 - d2 * e1"
    and ef: "0 < e1 * f2 - e2 * f1"
  shows "0 < d1 * f2 - d2 * f1"
proof -
  have f1: "0 \<le> f1" using f by auto
  have e1: "0 < e1"
  proof (rule ccontr)
    assume "\<not> 0 < e1"
    then have z: "e1 = 0" "0 < e2" using e by auto
    then have "0 < - (e2 * f1)" using ef by simp
    then have "e2 * f1 < 0" by simp
    then show False using z f1 by (simp add: mult_less_0_iff)
  qed
  have d1: "0 < d1"
  proof (rule ccontr)
    assume "\<not> 0 < d1"
    then have z: "d1 = 0" "0 < d2" using d by auto
    then have "d2 * e1 < 0" using de by simp
    then show False using z e1 by (simp add: mult_less_0_iff)
  qed
  have a: "d1 * (e2 * f1) < d1 * (e1 * f2)"
    using ef d1 by (simp add: mult_less_cancel_left_pos)
  have b: "f1 * (d2 * e1) \<le> f1 * (d1 * e2)"
    using de f1 by (intro mult_left_mono) simp_all
  have "e1 * (d1 * f2 - d2 * f1) = d1 * (e1 * f2) - f1 * (d2 * e1)"
    by (simp add: algebra_simps)
  also have "\<dots> > d1 * (e2 * f1) - f1 * (d1 * e2)" using a b by linarith
  also have "d1 * (e2 * f1) - f1 * (d1 * e2) = 0" by (simp add: algebra_simps)
  finally have "0 < e1 * (d1 * f2 - d2 * f1)" .
  then show ?thesis using e1 by (simp add: zero_less_mult_iff)
qed

lemma turn_step_top:
  assumes "lex_lt a b" "lex_lt b c" "lex_lt c t"
    and abc: "0 < cross a b c" and bct: "0 < cross b c t"
  shows "0 < cross a b t"
proof -
  let ?d1 = "px b - px a" and ?d2 = "py b - py a"
  let ?e1 = "px c - px b" and ?e2 = "py c - py b"
  let ?f1 = "px t - px c" and ?f2 = "py t - py c"
  have d: "0 < ?d1 \<or> (?d1 = 0 \<and> 0 < ?d2)" using assms(1) by (auto simp: lex_lt_def)
  have e: "0 < ?e1 \<or> (?e1 = 0 \<and> 0 < ?e2)" using assms(2) by (auto simp: lex_lt_def)
  have f: "0 < ?f1 \<or> (?f1 = 0 \<and> 0 < ?f2)" using assms(3) by (auto simp: lex_lt_def)
  have de: "0 < ?d1 * ?e2 - ?d2 * ?e1"
    using abc by (simp add: cross_def algebra_simps)
  have ef: "0 < ?e1 * ?f2 - ?e2 * ?f1"
    using bct by (simp add: cross_def algebra_simps)
  have df: "0 < ?d1 * ?f2 - ?d2 * ?f1" by (rule halfplane_trans[OF d e f de ef])
  have "cross a b t = (?d1 * ?e2 - ?d2 * ?e1) + (?d1 * ?f2 - ?d2 * ?f1)"
    by (simp add: cross_def algebra_simps)
  then show ?thesis using de df by linarith
qed

text \<open>The shoelace sum as a sum along edges, and as a fan of triangles around one vertex.\<close>

lemma edge_term_self [simp]: "edge_term a a = 0"
  by (simp add: edge_term_def)

lemma edge_term_swap: "edge_term b a = - edge_term a b"
  by (simp add: edge_term_def)

lemma cross_terms:
  "cross t b a = edge_term b a + edge_term t b - edge_term t a"
  by (simp add: cross_def edge_term_def algebra_simps)

lemma cross_distinct:
  assumes "0 < cross a b c"
  shows "a \<noteq> b" "b \<noteq> c" "a \<noteq> c"
  using assms by (auto simp: cross_def)

lemma cross_rotate: "cross t c b = - cross b c t"
  by (simp add: cross_def algebra_simps)

lemma lex_lt_trans: "lex_lt a b \<Longrightarrow> lex_lt b c \<Longrightarrow> lex_lt a c"
  by (auto simp: lex_lt_def)

lemma lex_le_neq: "lex_le a b \<Longrightarrow> a \<noteq> b \<Longrightarrow> lex_lt a b"
  by (cases a; cases b) (auto simp: lex_le_def lex_lt_def)

lemma lex_le_trans: "lex_le a b \<Longrightarrow> lex_le b c \<Longrightarrow> lex_le a c"
  by (auto simp: lex_le_def)

lemma path_sum_snoc:
  "path_sum (xs @ [a]) = path_sum xs + (if xs = [] then 0 else edge_term (last xs) a)"
  by (induction xs rule: path_sum.induct) simp_all

lemma path_sum_join:
  "path_sum (xs @ y # ys) = path_sum (xs @ [y]) + path_sum (y # ys)"
  by (induction xs rule: path_sum.induct) simp_all

lemma path_sum_rev: "path_sum (rev xs) = - path_sum xs"
proof (induction xs rule: path_sum.induct)
  case (1 a b rest)
  have "path_sum (rev (b # rest) @ [a]) = path_sum (rev (b # rest)) + edge_term b a"
    by (subst path_sum_snoc) (simp add: last_rev)
  then show ?case using 1 by (simp add: edge_term_swap[of b a])
qed simp_all

lemma closed_sum_rev: "closed_sum (rev st) = - closed_sum st"
proof (cases "st = []")
  case True
  then show ?thesis by (simp add: closed_sum_def)
next
  case False
  have "rev st @ [hd (rev st)] = rev (last st # st)"
    using False by (simp add: hd_rev)
  then have "closed_sum (rev st) = - path_sum (last st # st)"
    using False by (simp add: closed_sum_def path_sum_rev del: rev.simps)
  also have "path_sum (last st # st) = edge_term (last st) (hd st) + path_sum st"
    using False by (cases st) simp_all
  also have "closed_sum st = path_sum st + edge_term (last st) (hd st)"
    using False by (simp add: closed_sum_def path_sum_snoc)
  ultimately show ?thesis by simp
qed

lemma fan_path_sum:
  "xs \<noteq> [] \<Longrightarrow> fan t xs = path_sum xs + edge_term t (hd xs) - edge_term t (last xs)"
proof (induction t xs rule: fan.induct)
  case (1 t b a rest)
  then show ?case by (simp add: cross_terms)
qed simp_all

lemma closed_sum_fan: "closed_sum (t # rest) = fan t rest"
proof (cases "rest = []")
  case True
  then show ?thesis by (simp add: closed_sum_def)
next
  case False
  then obtain c rest' where r: "rest = c # rest'" by (cases rest) auto
  have "closed_sum (t # rest) = edge_term t (hd rest) + path_sum (rest @ [t])"
    by (simp add: closed_sum_def r)
  also have "path_sum (rest @ [t]) = path_sum rest + edge_term (last rest) t"
    using False by (simp add: path_sum_snoc)
  finally show ?thesis
    using False by (simp add: fan_path_sum edge_term_swap[of "last rest" t])
qed

lemma fan_negative:
  assumes "lex_lt c t" "lex_lt b c" "0 < cross b c t"
    and "strict_turns (c # b # rest)" "sorted_wrt (\<lambda>x y. lex_le y x) (c # b # rest)"
  shows "fan t (c # b # rest) < 0"
  using assms
proof (induction rest arbitrary: c b)
  case Nil
  then show ?case using cross_rotate[of t c b] by simp
next
  case (Cons a rest)
  have abc: "0 < cross a b c" using Cons.prems(4) by simp
  have "lex_le a b" using Cons.prems(5) by simp
  then have ab: "lex_lt a b" using cross_distinct(1)[OF abc] by (rule lex_le_neq)
  have abt: "0 < cross a b t"
    by (rule turn_step_top[OF ab Cons.prems(2) Cons.prems(1) abc Cons.prems(3)])
  have bt: "lex_lt b t" by (rule lex_lt_trans[OF Cons.prems(2) Cons.prems(1)])
  have "fan t (b # a # rest) < 0"
    using Cons.prems(4,5) by (intro Cons.IH[OF bt ab abt]) simp_all
  moreover have "cross t c b < 0"
    using Cons.prems(3) cross_rotate[of t c b] by simp
  ultimately show ?case by simp
qed

lemma closed_sum_stack:
  assumes "strict_turns st" "sorted_wrt (\<lambda>x y. lex_le y x) st"
  shows "closed_sum st \<le> 0 \<and> (3 \<le> length st \<longrightarrow> closed_sum st < 0)"
proof (cases st)
  case Nil
  then show ?thesis by (simp add: closed_sum_def)
next
  case (Cons t rest)
  show ?thesis
  proof (cases rest)
    case Nil
    then show ?thesis using Cons by (simp add: closed_sum_fan)
  next
    case c: (Cons c rest1)
    show ?thesis
    proof (cases rest1)
      case Nil
      then show ?thesis using Cons c by (simp add: closed_sum_fan)
    next
      case b: (Cons b rest2)
      have bct: "0 < cross b c t" using assms(1) Cons c b by simp
      have "lex_le c t" "lex_le b c" using assms(2) Cons c b by simp_all
      then have ct: "lex_lt c t" and bc: "lex_lt b c"
        using cross_distinct[OF bct] by (auto intro: lex_le_neq)
      have "fan t (c # b # rest2) < 0"
        using assms Cons c b by (intro fan_negative[OF ct bc bct]) simp_all
      then show ?thesis using Cons c b by (simp add: closed_sum_fan del: fan.simps)
    qed
  qed
qed

text \<open>What every step of an exact chain keeps: left turns, the order, the first point.\<close>

lemma strict_turns_tl: "strict_turns (x # xs) \<Longrightarrow> strict_turns xs"
  by (induction xs rule: strict_turns.induct) simp_all

lemma strict_turns_exact_push: "strict_turns st \<Longrightarrow> strict_turns (exact_push p st)"
proof (induction p st rule: exact_push.induct)
  case (1 p b a st)
  then show ?case using strict_turns_tl[of b "a # st"] by simp
qed simp_all

lemma exact_push_drop: "\<exists>k. exact_push p st = p # drop k st"
proof (induction p st rule: exact_push.induct)
  case (1 p b a st)
  show ?case
  proof (cases "cross a b p \<le> 0")
    case True
    then obtain k where "exact_push p (a # st) = p # drop k (a # st)" using 1 by blast
    then have "exact_push p (b # a # st) = p # drop (Suc k) (b # a # st)"
      using True by simp
    then show ?thesis by blast
  next
    case False
    then have "exact_push p (b # a # st) = p # drop 0 (b # a # st)" by simp
    then show ?thesis by blast
  qed
qed (auto intro: exI[of _ 0])

lemma exact_push_last: "st \<noteq> [] \<Longrightarrow> last (exact_push p st) = last st"
  by (induction p st rule: exact_push.induct) simp_all

lemma exact_push_length: "st \<noteq> [] \<Longrightarrow> 2 \<le> length (exact_push p st)"
  by (induction p st rule: exact_push.induct) simp_all

lemma exact_push_hd: "hd (exact_push p st) = p"
  using exact_push_drop[of p st] by auto

lemma exact_push_set: "set (exact_push p st) \<subseteq> insert p (set st)"
proof -
  obtain k where "exact_push p st = p # drop k st" using exact_push_drop by blast
  then show ?thesis using set_drop_subset[of k st] by auto
qed

lemma exact_push_sorted:
  assumes "sorted_wrt (\<lambda>x y. lex_le y x) st" "\<forall>q \<in> set st. lex_le q p"
  shows "sorted_wrt (\<lambda>x y. lex_le y x) (exact_push p st)"
proof -
  obtain k where k: "exact_push p st = p # drop k st" using exact_push_drop by blast
  have "sorted_wrt (\<lambda>x y. lex_le y x) (drop k st)"
    using assms(1) by (rule sorted_wrt_drop)
  moreover have "\<forall>q \<in> set (drop k st). lex_le q p"
    using assms(2) set_drop_subset[of k st] by blast
  ultimately show ?thesis by (simp add: k)
qed

lemma exact_stack_snoc: "exact_stack (xs @ [p]) = exact_push p (exact_stack xs)"
  by (simp add: exact_stack_def)

lemma exact_stack_invariant:
  assumes "sorted_wrt lex_le xs"
  shows "strict_turns (exact_stack xs) \<and> sorted_wrt (\<lambda>x y. lex_le y x) (exact_stack xs) \<and>
         set (exact_stack xs) \<subseteq> set xs"
  using assms
proof (induction xs rule: rev_induct)
  case Nil
  show ?case by (simp add: exact_stack_def)
next
  case (snoc p xs)
  have s: "sorted_wrt lex_le xs" and le: "\<forall>q \<in> set xs. lex_le q p"
    using snoc.prems by (simp_all add: sorted_wrt_append)
  note ih = snoc.IH[OF s]
  have "\<forall>q \<in> set (exact_stack xs). lex_le q p" using ih le by blast
  then have "sorted_wrt (\<lambda>x y. lex_le y x) (exact_push p (exact_stack xs))"
    using ih by (intro exact_push_sorted) simp_all
  moreover have "set (exact_push p (exact_stack xs)) \<subseteq> set (xs @ [p])"
    using exact_push_set[of p "exact_stack xs"] ih by auto
  ultimately show ?case
    using ih by (simp add: exact_stack_snoc strict_turns_exact_push)
qed

lemma exact_stack_ends:
  "xs \<noteq> [] \<Longrightarrow> exact_stack xs \<noteq> [] \<and> hd (exact_stack xs) = last xs \<and> last (exact_stack xs) = hd xs"
proof (induction xs rule: rev_induct)
  case Nil
  then show ?case by simp
next
  case (snoc p xs)
  have ne: "exact_push p (exact_stack xs) \<noteq> []"
    using exact_push_drop[of p "exact_stack xs"] by auto
  show ?case
  proof (cases "xs = []")
    case True
    then show ?thesis by (simp add: exact_stack_def)
  next
    case False
    then show ?thesis
      using snoc.IH ne by (simp add: exact_stack_snoc exact_push_hd exact_push_last)
  qed
qed

lemma exact_stack_length: "2 \<le> length xs \<Longrightarrow> 2 \<le> length (exact_stack xs)"
proof (induction xs rule: rev_induct)
  case Nil
  then show ?case by simp
next
  case (snoc p xs)
  then have "xs \<noteq> []" by auto
  then have "exact_stack xs \<noteq> []" using exact_stack_ends by blast
  then show ?case by (simp add: exact_stack_snoc exact_push_length)
qed

lemma exact_chain_exact_stack: "exact_chain xs = rev (exact_stack xs)"
  by (simp add: exact_chain_def exact_stack_def)

lemma exact_chain_facts:
  assumes "sorted_wrt lex_le xs"
  shows "0 \<le> closed_sum (exact_chain xs)"
    and "3 \<le> length (exact_chain xs) \<Longrightarrow> 0 < closed_sum (exact_chain xs)"
    and "set (exact_chain xs) \<subseteq> set xs"
  using exact_stack_invariant[OF assms] closed_sum_stack[of "exact_stack xs"]
  by (simp_all add: exact_chain_exact_stack closed_sum_rev)

lemma exact_chain_ends:
  assumes "2 \<le> length xs"
  shows "2 \<le> length (exact_chain xs)" "hd (exact_chain xs) = hd xs" "last (exact_chain xs) = last xs"
proof -
  have "xs \<noteq> []" using assms by auto
  then show "hd (exact_chain xs) = hd xs" "last (exact_chain xs) = last xs"
    using exact_stack_ends[of xs] by (simp_all add: exact_chain_exact_stack hd_rev last_rev)
  show "2 \<le> length (exact_chain xs)"
    using exact_stack_length[OF assms] by (simp add: exact_chain_exact_stack)
qed

text \<open>The upper chain is the lower chain of the reflected points.\<close>

lemma cross_neg:
  "cross (neg_point a) (neg_point b) (neg_point c) = cross a b c"
  by (simp add: cross_def neg_point_def algebra_simps)

lemma exact_push_neg:
  "exact_push (neg_point p) (map neg_point st) = map neg_point (exact_push p st)"
  by (induction p st rule: exact_push.induct) (simp_all add: cross_neg)

lemma exact_stack_neg: "exact_stack (map neg_point xs) = map neg_point (exact_stack xs)"
  by (induction xs rule: rev_induct)
     (simp_all add: exact_stack_def exact_push_neg)

lemma exact_chain_neg: "exact_chain (map neg_point xs) = map neg_point (exact_chain xs)"
  by (simp add: exact_chain_exact_stack exact_stack_neg rev_map)

lemma path_sum_neg: "path_sum (map neg_point xs) = path_sum xs"
  by (induction xs rule: path_sum.induct) (simp_all add: edge_term_def neg_point_def)

lemma closed_sum_neg: "closed_sum (map neg_point xs) = closed_sum xs"
proof (cases "xs = []")
  case True
  then show ?thesis by (simp add: closed_sum_def)
next
  case False
  then have "map neg_point xs @ [hd (map neg_point xs)] = map neg_point (xs @ [hd xs])"
    by (simp add: hd_map)
  then show ?thesis using False by (simp add: closed_sum_def path_sum_neg del: map_append)
qed

lemma lex_le_neg: "lex_le (neg_point a) (neg_point b) \<longleftrightarrow> lex_le b a"
  by (auto simp: lex_le_def neg_point_def)

lemma upper_exact_chain_facts:
  assumes "sorted_wrt lex_le xs"
  shows "0 \<le> closed_sum (exact_chain (rev xs))"
    and "3 \<le> length (exact_chain (rev xs)) \<Longrightarrow> 0 < closed_sum (exact_chain (rev xs))"
    and "set (exact_chain (rev xs)) \<subseteq> set xs"
proof -
  have "sorted_wrt (\<lambda>a b. lex_le b a) (rev xs)"
    using assms by (simp add: sorted_wrt_rev)
  then have s: "sorted_wrt lex_le (map neg_point (rev xs))"
    by (simp add: sorted_wrt_map lex_le_neg)
  have c: "closed_sum (exact_chain (map neg_point (rev xs))) = closed_sum (exact_chain (rev xs))"
    by (simp add: exact_chain_neg closed_sum_neg)
  have l: "length (exact_chain (map neg_point (rev xs))) = length (exact_chain (rev xs))"
    by (simp add: exact_chain_neg)
  show "0 \<le> closed_sum (exact_chain (rev xs))" using exact_chain_facts(1)[OF s] c by simp
  show "0 < closed_sum (exact_chain (rev xs))" if "3 \<le> length (exact_chain (rev xs))"
    using exact_chain_facts(2)[OF s] c l that by simp
  have "set (exact_stack (rev xs)) \<subseteq> set (rev xs)"
  proof (induction xs rule: list.induct)
    case Nil
    show ?case by (simp add: exact_stack_def)
  next
    case (Cons x xs)
    show ?case
      using exact_push_set[of x "exact_stack (rev xs)"] Cons
      by (auto simp: exact_stack_snoc)
  qed
  then show "set (exact_chain (rev xs)) \<subseteq> set xs" by (simp add: exact_chain_exact_stack)
qed

lemma exact_sorted_facts:
  "sorted_wrt lex_le (exact_sorted ps)" "set (exact_sorted ps) = set ps"
  "length (exact_sorted ps) = length ps"
proof -
  have "sorted (map (\<lambda>p. (px p, py p)) (exact_sorted ps))"
    by (simp add: exact_sorted_def)
  then have "sorted_wrt (\<lambda>a b. (px a, py a) \<le> (px b, py b)) (exact_sorted ps)"
    by (simp add: sorted_wrt_map)
  moreover have "(\<lambda>a b. (px a, py a) \<le> (px b, py b)) = lex_le"
    by (auto simp: fun_eq_iff lex_le_def less_eq_prod_def)
  ultimately show "sorted_wrt lex_le (exact_sorted ps)" by simp
  show "set (exact_sorted ps) = set ps" "length (exact_sorted ps) = length ps"
    by (simp_all add: exact_sorted_def)
qed

text \<open>The signed area of the hull is the sum of the signed areas of its two chains.\<close>

lemma path_sum_nth:
  "path_sum xs = (\<Sum>i<length xs - 1. edge_term (xs ! i) (xs ! (i + 1)))"
proof (induction xs rule: path_sum.induct)
  case (1 a b rest)
  have "(\<Sum>i<length (a # b # rest) - 1. edge_term ((a # b # rest) ! i) ((a # b # rest) ! (i + 1)))
        = (\<Sum>i<Suc (length rest). edge_term ((a # b # rest) ! i) ((a # b # rest) ! (i + 1)))"
    by simp
  also have "\<dots> = edge_term a b
        + (\<Sum>i<length rest. edge_term ((b # rest) ! i) ((b # rest) ! (i + 1)))"
    by (subst sum.lessThan_Suc_shift) simp
  finally show ?case using 1 by simp
qed simp_all

lemma real_shoelace_closed_sum: "real_shoelace vs = closed_sum vs"
proof (cases "vs = []")
  case True
  then show ?thesis by (simp add: real_shoelace_def closed_sum_def)
next
  case False
  let ?n = "length vs"
  let ?ws = "vs @ [hd vs]"
  have n: "0 < ?n" using False by simp
  have "path_sum ?ws = (\<Sum>i<?n. edge_term (?ws ! i) (?ws ! (i + 1)))"
    by (subst path_sum_nth) simp
  also have "\<dots> = (\<Sum>i<?n. edge_term (vs ! i) (next_vertex vs i))"
  proof (rule sum.cong)
    fix i assume "i \<in> {..<?n}"
    then have i: "i < ?n" by simp
    have a: "?ws ! i = vs ! i" using i by (simp add: nth_append)
    have b: "?ws ! (i + 1) = next_vertex vs i"
    proof (cases "i + 1 < ?n")
      case True
      then show ?thesis by (simp add: nth_append next_vertex_def)
    next
      case False
      then have e: "i + 1 = ?n" using i by simp
      have "?ws ! ?n = hd vs" by (simp add: nth_append)
      moreover have "next_vertex vs i = vs ! 0" using e by (simp add: next_vertex_def)
      ultimately show ?thesis using e n by (simp add: hd_conv_nth)
    qed
    show "edge_term (?ws ! i) (?ws ! (i + 1)) = edge_term (vs ! i) (next_vertex vs i)"
      by (simp only: a b)
  qed simp
  finally show ?thesis
    using False by (simp add: real_shoelace_def closed_sum_def edge_term_def)
qed

lemma butlast_split:
  assumes "2 \<le> length xs"
  shows "xs = butlast xs @ [last xs] \<and> butlast xs \<noteq> []"
proof -
  have "xs \<noteq> []" using assms by auto
  moreover have "butlast xs \<noteq> []"
  proof
    assume "butlast xs = []"
    then have "length (butlast xs) = 0" by simp
    then show False using assms by simp
  qed
  ultimately show ?thesis by simp
qed

lemma closed_sum_hull:
  assumes L: "2 \<le> length L" and U: "2 \<le> length U"
    and e1: "hd L = last U" and e2: "hd U = last L"
  shows "closed_sum (butlast L @ butlast U) = closed_sum L + closed_sum U"
proof -
  define L1 where "L1 = butlast L"
  define U1 where "U1 = butlast U"
  have L1: "L = L1 @ [last L]" "L1 \<noteq> []" "butlast L = L1"
    using butlast_split[OF L] by (simp_all add: L1_def)
  have U1: "U = U1 @ [last U]" "U1 \<noteq> []" "butlast U = U1"
    using butlast_split[OF U] by (simp_all add: U1_def)
  have hL: "hd L1 = hd L" using L1 by (metis hd_append2)
  obtain U2 where U2: "U = hd U # U2" using U by (cases U) auto
  have "closed_sum (butlast L @ butlast U) = path_sum (L1 @ U1 @ [hd L1])"
    using L1 U1 by (simp add: closed_sum_def)
  also have "L1 @ U1 @ [hd L1] = L1 @ U" using U1(1) hL e1 by simp
  also have "path_sum (L1 @ U) = path_sum (L1 @ [hd U]) + path_sum U"
    using path_sum_join[of L1 "hd U" U2] U2 by simp
  also have "L1 @ [hd U] = L" using L1(1) e2 by simp
  finally have h: "closed_sum (butlast L @ butlast U) = path_sum L + path_sum U" .
  have "L \<noteq> []" "U \<noteq> []" using L U by auto
  then have "closed_sum L = path_sum L + edge_term (last L) (hd L)"
    and "closed_sum U = path_sum U + edge_term (last U) (hd U)"
    by (simp_all add: closed_sum_def path_sum_snoc)
  then show ?thesis using h e1 e2 edge_term_swap[of "hd L" "last L"] by simp
qed

lemma exact_monotone_chain_ccw:
  assumes "3 \<le> length ps"
  shows "0 \<le> real_shoelace (exact_monotone_chain ps)"
    and "3 \<le> length (exact_monotone_chain ps) \<Longrightarrow> 0 < real_shoelace (exact_monotone_chain ps)"
    and "set (exact_monotone_chain ps) \<subseteq> set ps"
proof -
  let ?s = "exact_sorted ps"
  let ?L = "exact_chain ?s" and ?U = "exact_chain (rev ?s)"
  have s: "sorted_wrt lex_le ?s" by (rule exact_sorted_facts)
  have len: "2 \<le> length ?s" "2 \<le> length (rev ?s)"
    using assms by (simp_all add: exact_sorted_facts)
  have ne: "?s \<noteq> []" using len by auto
  note l = exact_chain_ends[OF len(1)] and u = exact_chain_ends[OF len(2)]
  have e1: "hd ?L = last ?U" using l(2) u(3) ne by (simp add: last_rev)
  have e2: "hd ?U = last ?L" using l(3) u(2) ne by (simp add: hd_rev)
  have c: "real_shoelace (exact_monotone_chain ps) = closed_sum ?L + closed_sum ?U"
    unfolding real_shoelace_closed_sum exact_monotone_chain_def
    by (rule closed_sum_hull[OF l(1) u(1) e1 e2])
  show "0 \<le> real_shoelace (exact_monotone_chain ps)"
    using c exact_chain_facts(1)[OF s] upper_exact_chain_facts(1)[OF s] by simp
  show "0 < real_shoelace (exact_monotone_chain ps)" if "3 \<le> length (exact_monotone_chain ps)"
  proof -
    have "3 \<le> length ?L \<or> 3 \<le> length ?U"
      using that by (auto simp: exact_monotone_chain_def)
    then show ?thesis
      using c exact_chain_facts(1,2)[OF s] upper_exact_chain_facts(1,2)[OF s] by auto
  qed
  have "set (butlast ?L) \<subseteq> set ?L" "set (butlast ?U) \<subseteq> set ?U"
    by (auto dest: in_set_butlastD)
  then show "set (exact_monotone_chain ps) \<subseteq> set ps"
    using exact_chain_facts(3)[OF s] upper_exact_chain_facts(3)[OF s]
    by (auto simp: exact_monotone_chain_def exact_sorted_facts(2))
qed

subsection \<open>The computed chain on integer points\<close>

text \<open>
  On points whose coordinates are integers of magnitude at most \<open>2 ^ 25\<close> the code computes
  every cross product without rounding, so its chains are the exact ones.
\<close>

lemma int_within_double:
  assumes "int_within b a" "b \<le> 2 ^ 53"
  shows "\<exists>x. a = Fin x \<and> is_double x"
proof -
  obtain n :: int where n: "a = Fin (of_int n)" "\<bar>n\<bar> \<le> b"
    using assms(1) by (auto simp: int_within_def)
  have "is_double (of_int n)"
    unfolding is_double_def using n(2) assms(2) by (intro Fin_int) simp
  then show ?thesis using n(1) by blast
qed

lemma int_point_finite: "int_point (2 ^ 25) p \<Longrightarrow> finite_point p"
  using int_within_double[of "2 ^ 25" "px p"] int_within_double[of "2 ^ 25" "py p"]
  by (cases p) (auto simp: int_point_def finite_point_def)

lemma crossProduct_exact:
  assumes "int_point (2 ^ 25) orig" "int_point (2 ^ 25) a" "int_point (2 ^ 25) b"
  shows "crossProduct orig a b = Fin (cross (real_point orig) (real_point a) (real_point b))"
proof -
  have c: "int_within (2 ^ 25) (px orig)" "int_within (2 ^ 25) (py orig)"
    "int_within (2 ^ 25) (px a)" "int_within (2 ^ 25) (py a)"
    "int_within (2 ^ 25) (px b)" "int_within (2 ^ 25) (py b)"
    using assms by (simp_all add: int_point_def)
  have d1: "int_within (2 ^ 26) (px a - px orig)" "val (px a - px orig) = val (px a) - val (px orig)"
    using int_sub[OF c(3) c(1)] by simp_all
  have d2: "int_within (2 ^ 26) (py b - py orig)" "val (py b - py orig) = val (py b) - val (py orig)"
    using int_sub[OF c(6) c(2)] by simp_all
  have d3: "int_within (2 ^ 26) (py a - py orig)" "val (py a - py orig) = val (py a) - val (py orig)"
    using int_sub[OF c(4) c(2)] by simp_all
  have d4: "int_within (2 ^ 26) (px b - px orig)" "val (px b - px orig) = val (px b) - val (px orig)"
    using int_sub[OF c(5) c(1)] by simp_all
  have m1: "int_within (2 ^ 52) ((px a - px orig) * (py b - py orig))"
    "val ((px a - px orig) * (py b - py orig)) = val (px a - px orig) * val (py b - py orig)"
    using int_mul[OF d1(1) d2(1)] by simp_all
  have m2: "int_within (2 ^ 52) ((py a - py orig) * (px b - px orig))"
    "val ((py a - py orig) * (px b - px orig)) = val (py a - py orig) * val (px b - px orig)"
    using int_mul[OF d3(1) d4(1)] by simp_all
  have w: "int_within (2 ^ 53) (crossProduct orig a b)"
    and v: "val (crossProduct orig a b)
      = val ((px a - px orig) * (py b - py orig)) - val ((py a - py orig) * (px b - px orig))"
    using int_sub[OF m1(1) m2(1)] by (simp_all add: crossProduct_def)
  show ?thesis
    using int_within_val[OF w]
    by (simp add: v m1(2) m2(2) d1(2) d2(2) d3(2) d4(2) cross_def real_point_def)
qed

lemma Fin_le_0: "Fin x \<le> 0 \<longleftrightarrow> x \<le> 0"
  by (auto simp: less_eq_double_def less_double_def zero_double_def)

lemma chain_push_exact:
  "int_point (2 ^ 25) p \<Longrightarrow> list_all (int_point (2 ^ 25)) st \<Longrightarrow>
   map real_point (chain_push p st) = exact_push (real_point p) (map real_point st)"
proof (induction p st rule: chain_push.induct)
  case (1 p b a st)
  then show ?case
    using crossProduct_exact[of a b p] by (simp add: Fin_le_0)
qed simp_all

lemma chain_push_int:
  "int_point (2 ^ 25) p \<Longrightarrow> list_all (int_point (2 ^ 25)) st \<Longrightarrow>
   list_all (int_point (2 ^ 25)) (chain_push p st)"
  using chain_push_set[of p st] by (auto simp: list_all_iff)

lemma foldl_chain_push_exact:
  "list_all (int_point (2 ^ 25)) st \<Longrightarrow> list_all (int_point (2 ^ 25)) xs \<Longrightarrow>
   map real_point (foldl (\<lambda>st p. chain_push p st) st xs)
     = foldl (\<lambda>st p. exact_push p st) (map real_point st) (map real_point xs)"
proof (induction xs arbitrary: st)
  case Nil
  show ?case by simp
next
  case (Cons x xs)
  have "list_all (int_point (2 ^ 25)) (chain_push x st)"
    using Cons.prems by (intro chain_push_int) simp_all
  then show ?case
    using Cons.IH[of "chain_push x st"] Cons.prems chain_push_exact[of x st] by simp
qed

lemma chain_exact:
  "list_all (int_point (2 ^ 25)) xs \<Longrightarrow>
   map real_point (chain xs) = exact_chain (map real_point xs)"
proof -
  assume a: "list_all (int_point (2 ^ 25)) xs"
  have "map real_point (chain xs) = rev (map real_point (foldl (\<lambda>st p. chain_push p st) [] xs))"
    by (simp add: chain_def rev_map)
  then show ?thesis
    using foldl_chain_push_exact[of "[]" xs] a by (simp add: exact_chain_def)
qed

lemma insort_key_map:
  "map g (insort_key (\<lambda>x. f (g x)) a xs) = insort_key f (g a) (map g xs)"
  by (induction xs) simp_all

lemma sort_key_map_commute: "map g (sort_key (\<lambda>x. f (g x)) xs) = sort_key f (map g xs)"
  by (induction xs) (simp_all add: insort_key_map)

lemma lex_sorted_exact: "map real_point (lex_sorted ps) = exact_sorted (map real_point ps)"
  using sort_key_map_commute[of real_point "\<lambda>p. (px p, py p)" ps]
  by (simp add: lex_sorted_def exact_sorted_def real_point_def)

lemma monotone_chain_exact:
  assumes "list_all (int_point (2 ^ 25)) ps"
  shows "map real_point (monotone_chain ps) = exact_monotone_chain (map real_point ps)"
proof -
  have s: "list_all (int_point (2 ^ 25)) (lex_sorted ps)"
    "list_all (int_point (2 ^ 25)) (rev (lex_sorted ps))"
    using assms by (simp_all add: list_all_iff lex_sorted_def)
  have "map real_point (rev (lex_sorted ps)) = rev (map real_point (lex_sorted ps))"
    by (rule rev_map[symmetric])
  then have r: "map real_point (rev (lex_sorted ps)) = rev (exact_sorted (map real_point ps))"
    unfolding lex_sorted_exact .
  show ?thesis
    using chain_exact[OF s(1)] chain_exact[OF s(2)]
    unfolding r lex_sorted_exact
    by (simp add: monotone_chain_def exact_monotone_chain_def map_butlast)
qed

lemma exact_shoelace_real: "exact_shoelace vs = real_shoelace (map real_point vs)"
proof -
  have "(i + 1) mod length vs < length vs" if "i < length vs" for i
    using that by (intro mod_less_divisor) auto
  then show ?thesis
    by (simp add: exact_shoelace_def real_shoelace_def next_vertex_def real_point_def)
qed

lemma integer_hull_ccw:
  assumes "3 \<le> length ps" "list_all (int_point (2 ^ 25)) ps"
  shows "map real_point (Polygon_convexHull ps) = exact_monotone_chain (map real_point ps)"
    and "0 \<le> exact_shoelace (Polygon_convexHull ps)"
    and "3 \<le> length (Polygon_convexHull ps) \<Longrightarrow> 0 < exact_shoelace (Polygon_convexHull ps)"
proof -
  have "\<forall>p \<in> set ps. finite_point p"
    using assms(2) int_point_finite by (auto simp: list_all_iff)
  then have h: "Polygon_convexHull ps = monotone_chain ps"
    using assms(1) by (simp add: Polygon_convexHull_chains monotone_chain_def sort_points_lex_sorted)
  show m: "map real_point (Polygon_convexHull ps) = exact_monotone_chain (map real_point ps)"
    unfolding h by (rule monotone_chain_exact[OF assms(2)])
  have n: "3 \<le> length (map real_point ps)" using assms(1) by simp
  show "0 \<le> exact_shoelace (Polygon_convexHull ps)"
    unfolding exact_shoelace_real m by (rule exact_monotone_chain_ccw(1)[OF n])
  show "0 < exact_shoelace (Polygon_convexHull ps)" if "3 \<le> length (Polygon_convexHull ps)"
  proof -
    have "3 \<le> length (map real_point (Polygon_convexHull ps))" using that by simp
    then have "3 \<le> length (exact_monotone_chain (map real_point ps))" unfolding m .
    then show ?thesis
      unfolding exact_shoelace_real m by (rule exact_monotone_chain_ccw(2)[OF n])
  qed
qed

text \<open>
  Claim C3, as stated, fails on collinear points. The points \<open>(-1, -3)\<close>, \<open>(1, 3)\<close> and
  \<open>(2 ^ 53, 3 * 2 ^ 53)\<close> lie on the line \<open>y = 3 x\<close>: their cross product is \<open>0\<close>, and the
  monotone chain drops the middle point from both chains. The code rounds
  \<open>3 * 2 ^ 53 + 3\<close> to \<open>3 * 2 ^ 53 + 4\<close>, computes the cross product \<open>8\<close>, keeps the
  middle point in both chains, and returns a polygon that visits it twice and encloses
  no area.
\<close>

theorem Polygon_convexHull_collinear_counterexample:
  "finite_point (pt (- 1) (- 3)) \<and> finite_point (pt 1 3) \<and> finite_point (pt (2 ^ 53) (3 * 2 ^ 53)) \<and>
   exact_cross (pt (- 1) (- 3)) (pt 1 3) (pt (2 ^ 53) (3 * 2 ^ 53)) = 0 \<and>
   crossProduct (pt (- 1) (- 3)) (pt 1 3) (pt (2 ^ 53) (3 * 2 ^ 53)) = Fin 8 \<and>
   Polygon_convexHull [pt (- 1) (- 3), pt 1 3, pt (2 ^ 53) (3 * 2 ^ 53)]
     = [pt (- 1) (- 3), pt 1 3, pt (2 ^ 53) (3 * 2 ^ 53), pt 1 3] \<and>
   exact_shoelace [pt (- 1) (- 3), pt 1 3, pt (2 ^ 53) (3 * 2 ^ 53), pt 1 3] = 0"
proof -
  note ev = pt_def dbl_ops round_dbl_int round_dbl_binade[of 53] round_dbl_binade[of 54]
    round_dbl_binade[of 55] round_dbl_binade[of 107] pow2_def round_even_def
  have f: "finite_point (pt (- 1) (- 3))" "finite_point (pt 1 3)"
    "finite_point (pt (2 ^ 53) (3 * 2 ^ 53))"
    by (simp_all add: finite_point_pt is_double_def ev)
  have x: "exact_cross (pt (- 1) (- 3)) (pt 1 3) (pt (2 ^ 53) (3 * 2 ^ 53)) = 0"
    by (simp add: exact_cross_def pt_def val_def)
  have c: "crossProduct (pt (- 1) (- 3)) (pt 1 3) (pt (2 ^ 53) (3 * 2 ^ 53)) = Fin 8"
    by (simp add: crossProduct_def ev)
  have s: "sort_points [pt (- 1) (- 3), pt 1 3, pt (2 ^ 53) (3 * 2 ^ 53)]
     = [pt (- 1) (- 3), pt 1 3, pt (2 ^ 53) (3 * 2 ^ 53)]"
    by (simp add: sort_points_def compare_points_def strict_eq_def ev)
  have l: "chain [pt (- 1) (- 3), pt 1 3, pt (2 ^ 53) (3 * 2 ^ 53)]
     = [pt (- 1) (- 3), pt 1 3, pt (2 ^ 53) (3 * 2 ^ 53)]"
    by (simp add: chain_def crossProduct_def ev)
  have u: "chain (rev [pt (- 1) (- 3), pt 1 3, pt (2 ^ 53) (3 * 2 ^ 53)])
     = [pt (2 ^ 53) (3 * 2 ^ 53), pt 1 3, pt (- 1) (- 3)]"
    by (simp add: chain_def crossProduct_def ev)
  have h: "Polygon_convexHull [pt (- 1) (- 3), pt 1 3, pt (2 ^ 53) (3 * 2 ^ 53)]
     = [pt (- 1) (- 3), pt 1 3, pt (2 ^ 53) (3 * 2 ^ 53), pt 1 3]"
    unfolding Polygon_convexHull_chains s l u by simp
  have a: "exact_shoelace [pt (- 1) (- 3), pt 1 3, pt (2 ^ 53) (3 * 2 ^ 53), pt 1 3] = 0"
    by (simp add: exact_shoelace_def next_vertex_def lessThan_atLeast0
        flip: interv_sum_list_conv_sum_set_nat; simp add: upt_4 pt_def val_def)
  show ?thesis using f x c h a by simp
qed

text \<open>
  Claim C3, amended. On fewer than 3 points \<^verbatim>\<open>convexHull\<close> returns the input points. On
  3 or more points with finite coordinates it returns the monotone chain of the
  specification, computed in double arithmetic: the points sorted lexicographically by
  \<open>x\<close> then \<open>y\<close>, the lower chain built over them and the upper chain over them in
  reverse, each by dropping the last chain point while the cross product of the last two
  chain points with the candidate, as the code computes it, is \<open>\<le> 0\<close>, and the two
  chains joined without their last points. The vertices of the result are input points,
  and no three successive points of a chain have a computed cross product \<open>\<le> 0\<close>;
  whether they turn left is not decided by that. On points whose coordinates are
  integers of magnitude at most \<open>2 ^ 25\<close> no cross product is rounded: the result is the
  monotone chain in exact arithmetic, and its vertices are in counter-clockwise order,
  its shoelace sum being never negative, and positive as soon as it has 3 vertices. On
  (0,0), (1,1), (0,1), (1,0), (0.5,0.5) the hull is (0,0), (1,0), (1,1), (0,1), without
  the interior point, and its shoelace sum is 2: counter-clockwise.
\<close>

theorem Polygon_convexHull_spec:
  "(length ps < 3 \<longrightarrow> Polygon_convexHull ps = ps) \<and>
   (3 \<le> length ps \<and> list_all finite_point ps \<longrightarrow>
      Polygon_convexHull ps = monotone_chain ps \<and>
      turns_kept (chain (lex_sorted ps)) \<and> turns_kept (chain (rev (lex_sorted ps))) \<and>
      set (Polygon_convexHull ps) \<subseteq> set ps) \<and>
   (3 \<le> length ps \<and> list_all (int_point (2 ^ 25)) ps \<longrightarrow>
      map real_point (Polygon_convexHull ps) = exact_monotone_chain (map real_point ps) \<and>
      0 \<le> exact_shoelace (Polygon_convexHull ps) \<and>
      (3 \<le> length (Polygon_convexHull ps) \<longrightarrow> 0 < exact_shoelace (Polygon_convexHull ps))) \<and>
   Polygon_convexHull [pt 0 0, pt 1 1, pt 0 1, pt 1 0, pt (1 / 2) (1 / 2)]
     = [pt 0 0, pt 1 0, pt 1 1, pt 0 1] \<and>
   exact_shoelace [pt 0 0, pt 1 0, pt 1 1, pt 0 1] = 2"
proof (intro conjI impI)
  show "Polygon_convexHull ps = ps" if "length ps < 3"
    using that by (simp add: Polygon_convexHull_chains)
next
  assume h: "3 \<le> length ps \<and> list_all finite_point ps"
  then have s: "sort_points ps = lex_sorted ps"
    by (intro sort_points_lex_sorted) (simp add: list_all_iff)
  show e: "Polygon_convexHull ps = monotone_chain ps"
    using h by (simp add: Polygon_convexHull_chains monotone_chain_def s)
  show "turns_kept (chain (lex_sorted ps))" "turns_kept (chain (rev (lex_sorted ps)))"
    using chain_facts by blast+
  have "set (chain (lex_sorted ps)) \<subseteq> set ps" "set (chain (rev (lex_sorted ps))) \<subseteq> set ps"
    using chain_facts[of "lex_sorted ps"] chain_facts[of "rev (lex_sorted ps)"]
    by (simp_all add: lex_sorted_def)
  then show "set (Polygon_convexHull ps) \<subseteq> set ps"
    unfolding e monotone_chain_def
    using butlast_subset[of "chain (lex_sorted ps)"]
      butlast_subset[of "chain (rev (lex_sorted ps))"]
    by auto
next
  assume h: "3 \<le> length ps \<and> list_all (int_point (2 ^ 25)) ps"
  then show "map real_point (Polygon_convexHull ps) = exact_monotone_chain (map real_point ps)"
    by (intro integer_hull_ccw(1)) simp_all
  show "0 \<le> exact_shoelace (Polygon_convexHull ps)"
    using h by (intro integer_hull_ccw(2)) simp_all
  show "0 < exact_shoelace (Polygon_convexHull ps)" if "3 \<le> length (Polygon_convexHull ps)"
    using h that by (intro integer_hull_ccw(3)) simp_all
next
  show "Polygon_convexHull [pt 0 0, pt 1 1, pt 0 1, pt 1 0, pt (1 / 2) (1 / 2)]
     = [pt 0 0, pt 1 0, pt 1 1, pt 0 1]"
    by (rule hull_example)
  show "exact_shoelace [pt 0 0, pt 1 0, pt 1 1, pt 0 1] = 2"
    by (simp add: exact_shoelace_def next_vertex_def lessThan_atLeast0
        flip: interv_sum_list_conv_sum_set_nat; simp add: upt_4 pt_def val_def)
qed

theorem Polygon_convexHull_spec_witness:
  "Polygon_convexHull [pt 0 0, pt 1 1] = [pt 0 0, pt 1 1] \<and>
   list_all finite_point [pt 0 0, pt 1 1, pt 0 1, pt 1 0, pt (1 / 2) (1 / 2)] \<and>
   lex_sorted [pt 0 0, pt 1 1, pt 0 1, pt 1 0, pt (1 / 2) (1 / 2)]
     = [pt 0 0, pt 0 1, pt (1 / 2) (1 / 2), pt 1 0, pt 1 1] \<and>
   monotone_chain [pt 0 0, pt 1 1, pt 0 1, pt 1 0, pt (1 / 2) (1 / 2)]
     = [pt 0 0, pt 1 0, pt 1 1, pt 0 1] \<and>
   turns_kept [pt 0 0, pt 1 0, pt 1 1] \<and> turns_kept [pt 1 1, pt 0 1, pt 0 0] \<and>
   list_all (int_point (2 ^ 25)) [pt 0 0, pt 2 2, pt 0 2, pt 2 0, pt 1 1] \<and>
   Polygon_convexHull [pt 0 0, pt 2 2, pt 0 2, pt 2 0, pt 1 1] = [pt 0 0, pt 2 0, pt 2 2, pt 0 2] \<and>
   exact_monotone_chain (map real_point [pt 0 0, pt 2 2, pt 0 2, pt 2 0, pt 1 1])
     = [Point 0 0, Point 2 0, Point 2 2, Point 0 2] \<and>
   0 < exact_shoelace [pt 0 0, pt 2 0, pt 2 2, pt 0 2]"
proof -
  let ?qs = "[pt 0 0, pt 2 2, pt 0 2, pt 2 0, pt 1 1]"
  have qi: "list_all (int_point (2 ^ 25)) ?qs"
    using int_within_numeral[of 0 "2 ^ 25"] int_within_numeral[of 1 "2 ^ 25"]
      int_within_numeral[of 2 "2 ^ 25"]
    by (simp add: int_point_def pt_def)
  have qh: "Polygon_convexHull ?qs = [pt 0 0, pt 2 0, pt 2 2, pt 0 2]"
  proof -
    have s: "sort_points ?qs = [pt 0 0, pt 0 2, pt 1 1, pt 2 0, pt 2 2]"
      by (simp add: sort_points_def compare_points_def strict_eq_def pt_def dbl_ops round_dbl_int)
    have l: "chain [pt 0 0, pt 0 2, pt 1 1, pt 2 0, pt 2 2] = [pt 0 0, pt 2 0, pt 2 2]"
      by (simp add: chain_def crossProduct_def pt_def dbl_ops round_dbl_int)
    have u: "chain (rev [pt 0 0, pt 0 2, pt 1 1, pt 2 0, pt 2 2]) = [pt 2 2, pt 0 2, pt 0 0]"
      by (simp add: chain_def crossProduct_def pt_def dbl_ops round_dbl_int)
    show ?thesis
      unfolding Polygon_convexHull_chains s l u by simp
  qed
  have qn: "3 \<le> length ?qs" by simp
  have qe: "map real_point (Polygon_convexHull ?qs) = exact_monotone_chain (map real_point ?qs)"
    and qp: "3 \<le> length (Polygon_convexHull ?qs) \<longrightarrow> 0 < exact_shoelace (Polygon_convexHull ?qs)"
    using Polygon_convexHull_spec[of ?qs] qn qi by blast+
  have qm: "exact_monotone_chain (map real_point ?qs) = [Point 0 0, Point 2 0, Point 2 2, Point 0 2]"
    using qe unfolding qh by (simp add: real_point_def pt_def val_def)
  have qs: "0 < exact_shoelace [pt 0 0, pt 2 0, pt 2 2, pt 0 2]"
    using qp unfolding qh by simp
  let ?ps = "[pt 0 0, pt 1 1, pt 0 1, pt 1 0, pt (1 / 2) (1 / 2)]"
  note ev = pt_def dbl_ops round_dbl_int round_dbl_scaled[of _ 2]
  have a: "Polygon_convexHull [pt 0 0, pt 1 1] = [pt 0 0, pt 1 1]"
    using Polygon_convexHull_spec[of "[pt 0 0, pt 1 1]"] by simp
  have f: "list_all finite_point ?ps"
    by (simp add: finite_point_pt is_double_def ev)
  have s: "sort_points ?ps = [pt 0 0, pt 0 1, pt (1 / 2) (1 / 2), pt 1 0, pt 1 1]"
    by (simp add: sort_points_def compare_points_def strict_eq_def ev)
  have l: "chain [pt 0 0, pt 0 1, pt (1 / 2) (1 / 2), pt 1 0, pt 1 1] = [pt 0 0, pt 1 0, pt 1 1]"
    by (simp add: chain_def crossProduct_def ev)
  have u: "chain (rev [pt 0 0, pt 0 1, pt (1 / 2) (1 / 2), pt 1 0, pt 1 1])
     = [pt 1 1, pt 0 1, pt 0 0]"
    by (simp add: chain_def crossProduct_def ev)
  have h: "Polygon_convexHull ?ps = [pt 0 0, pt 1 0, pt 1 1, pt 0 1]"
    using Polygon_convexHull_spec[of ?ps] by blast
  have n: "3 \<le> length ?ps" by simp
  have ls: "lex_sorted ?ps = [pt 0 0, pt 0 1, pt (1 / 2) (1 / 2), pt 1 0, pt 1 1]"
    using sort_points_lex_sorted[of ?ps] f s by (simp add: list_all_iff)
  have t: "turns_kept (chain (lex_sorted ?ps))" "turns_kept (chain (rev (lex_sorted ?ps)))"
    and m: "Polygon_convexHull ?ps = monotone_chain ?ps"
    using Polygon_convexHull_spec[of ?ps] n f by blast+
  show ?thesis
    using a f m t ls qi qh qm qs unfolding h ls l u by simp
qed

end
